theory Spec2Isabelle imports Main begin

section \<open>The argparse library: data model\<close>

text \<open>
  The development embeds the Go package \<open>argparse\<close> (one source file: the definition
  registry, \<open>Parse\<close>, \<open>parseValue\<close> and the typed getters).

  Conventions of the embedding.
  \<^item> A Go \<open>string\<close> is a \<open>string\<close> of HOL, one \<open>char\<close> per byte. The one place where
    the package reads a string as runes, the loop over a short cluster, decodes UTF-8 as
    Go does (\<open>runeWidth\<close>, \<open>runeText\<close>).
  \<^item> A Go \<open>int\<close> is an \<open>int\<close> of HOL kept in the 64-bit range; the only arithmetic of the
    package, the increment of a counter, wraps (\<open>wrap64\<close>).
  \<^item> \<open>float64\<close> and \<open>time.Time\<close> are the type parameters \<open>'f\<close> and \<open>'t\<close>; what the Go
    standard library computes on them (\<open>strconv.ParseFloat\<close>, \<open>time.Parse\<close>, the \<open>%v\<close> verb)
    is taken as the parameter \<open>L\<close>, a record of functions, so every theorem holds for any
    behaviour of these library functions.
  \<^item> \<open>interface{}\<close> is the datatype \<open>val\<close> of the six dynamic types the package stores,
    and a nil interface is \<open>None\<close>; a default of any other dynamic type is outside the
    model, as is an \<open>ArgumentType\<close> that is none of the seven declared constants.
\<close>

datatype ('f, 't) val =
    VString string
  | VInt int
  | VFloat 'f
  | VBool bool
  | VList "string list"
  | VTime 't

text \<open>\<open>ArgumentType\<close>: the seven constants of the source, in their order.\<close>

datatype ArgumentType =
  StringType | IntType | FloatType | BoolType | ListType | CounterType | DateTimeType

text \<open>
  \<open>Argument\<close>. The back pointer \<open>parent\<close> is never read and is left out; the field
  \<open>value\<close> of the source (never read or written by the package) is \<open>value'\<close>.
\<close>

record ('f, 't) Argument =
  Name :: string
  ShortName :: string
  Description :: string
  IsRequired :: bool
  ArgType :: ArgumentType
  DefaultVal :: "('f, 't) val option"
  ValidChoices :: "string list"
  value' :: "('f, 't) val option"
  isSet :: bool
  isPositional :: bool

text \<open>
  \<open>Parser\<close>. The map \<open>subparsers\<close> is an association list read with \<open>map_of\<close>;
  \<open>len(p.subparsers) > 0\<close> is \<open>subparsers p \<noteq> []\<close>. The back pointer \<open>parent\<close> is
  never read and is left out.
\<close>

datatype ('f, 't) Parser = Parser
  (name: string)
  (description: string)
  (epilog: string)
  (version: string)
  (args: "('f, 't) Argument list")
  (positional: "('f, 't) Argument list")
  (subparsers: "(string \<times> ('f, 't) Parser) list")
  (subparser: string)

text \<open>The functions of the Go standard library on floats and timestamps.\<close>

record ('f, 't) stdlib =
  ParseFloat :: "string \<Rightarrow> 'f option"
  timeParse :: "string \<Rightarrow> string \<Rightarrow> 't option"
  zeroFloat :: 'f
  zeroTime :: 't
  fmtFloat :: "'f \<Rightarrow> string"
  fmtTime :: "'t \<Rightarrow> string"

text \<open>
  Errors. Each constructor is one \<open>fmt.Errorf\<close> format of \<open>Parse\<close> and carries the text
  the format is filled with:
  \<open>invalid value for X: err\<close>, \<open>argument X requires a value\<close>, \<open>unknown argument: X\<close>,
  \<open>unrecognized positional argument: X\<close>, \<open>required argument missing: X\<close>,
  \<open>required positional argument missing: X\<close>. The package has no other error.
\<close>

datatype convError = AtoiError | ParseFloatError | ParseBoolError | InvalidDatetime

datatype error =
    InvalidValue string convError
  | RequiresValue string
  | UnknownArgument string
  | UnrecognizedPositional string
  | RequiredMissing string
  | RequiredPositionalMissing string

text \<open>
  What a call of \<open>Parse\<close> does: it returns a result map, returns an error, or ends the
  process with status 0 after printing the help text or the version line.
\<close>

datatype ('f, 't) outcome =
    Ok "string \<rightharpoonup> ('f, 't) val"
  | Err error
  | ExitHelp
  | ExitVersion

section \<open>Value coercion\<close>

text \<open>\<open>strings.HasPrefix\<close>.\<close>

definition HasPrefix :: "string \<Rightarrow> string \<Rightarrow> bool" where
  "HasPrefix s p = (take (length p) s = p)"

text \<open>\<open>strings.Split(value, ",")\<close>: the pieces between the separators, in order.\<close>

fun Split :: "string \<Rightarrow> char \<Rightarrow> string list" where
  "Split [] sep = [[]]"
| "Split (c # cs) sep =
     (if c = sep then [] # Split cs sep
      else (case Split cs sep of
              [] \<Rightarrow> [[c]]
            | w # ws \<Rightarrow> (c # w) # ws))"

text \<open>
  \<open>strconv.Atoi\<close> on a 64-bit platform: an optional sign, then one or more decimal
  digits, and the number must fit \<open>int\<close>; anything else is an error.
\<close>

definition isDigit :: "char \<Rightarrow> bool" where
  "isDigit c = (of_char c \<ge> (48::nat) \<and> of_char c \<le> (57::nat))"

definition digitsValue :: "string \<Rightarrow> int" where
  "digitsValue ds = foldl (\<lambda>n c. n * 10 + (int (of_char c) - 48)) 0 ds"

definition Atoi :: "string \<Rightarrow> int option" where
  "Atoi s =
     (let neg = (take 1 s = ''-'');
          ds = (if take 1 s = ''-'' \<or> take 1 s = ''+'' then drop 1 s else s)
      in if ds = [] then None
         else if list_all isDigit ds
         then (let n = (if neg then - digitsValue ds else digitsValue ds)
               in if n < - (2 ^ 63) \<or> 2 ^ 63 - 1 < n then None else Some n)
         else None)"

text \<open>\<open>strconv.ParseBool\<close>.\<close>

definition ParseBool :: "string \<Rightarrow> bool option" where
  "ParseBool s =
     (if s \<in> set [''1'', ''t'', ''T'', ''TRUE'', ''true'', ''True''] then Some True
      else if s \<in> set [''0'', ''f'', ''F'', ''FALSE'', ''false'', ''False''] then Some False
      else None)"

text \<open>The layouts \<open>parseValue\<close> tries for a timestamp, in its order.\<close>

definition formats :: "string list" where
  "formats = [''2006-01-02T15:04:05Z07:00'', ''2006-01-02'', ''2006-01-02 15:04:05'',
              ''01/02/2006'', ''01/02/2006 15:04:05'']"

fun tryFormats :: "('f, 't) stdlib \<Rightarrow> string list \<Rightarrow> string \<Rightarrow> 't option" where
  "tryFormats L [] v = None"
| "tryFormats L (f # fs) v =
     (case timeParse L f v of Some t \<Rightarrow> Some t | None \<Rightarrow> tryFormats L fs v)"

text \<open>\<open>parseValue\<close>. \<open>CounterType\<close> has no case of its own and takes the default branch.\<close>

fun parseValue :: "('f, 't) stdlib \<Rightarrow> ArgumentType \<Rightarrow> string \<Rightarrow> convError + ('f, 't) val" where
  "parseValue L StringType v = Inr (VString v)"
| "parseValue L IntType v =
     (case Atoi v of None \<Rightarrow> Inl AtoiError | Some n \<Rightarrow> Inr (VInt n))"
| "parseValue L FloatType v =
     (case ParseFloat L v of None \<Rightarrow> Inl ParseFloatError | Some x \<Rightarrow> Inr (VFloat x))"
| "parseValue L BoolType v =
     (case ParseBool v of None \<Rightarrow> Inl ParseBoolError | Some b \<Rightarrow> Inr (VBool b))"
| "parseValue L ListType v = Inr (VList (Split v (CHR '','')))"
| "parseValue L DateTimeType v =
     (case tryFormats L formats v of None \<Rightarrow> Inl InvalidDatetime | Some t \<Rightarrow> Inr (VTime t))"
| "parseValue L CounterType v = Inr (VString v)"

section \<open>The definition registry\<close>

text \<open>\<open>&Argument{}\<close>: every field at its zero value.\<close>

definition emptyArgument :: "('f, 't) Argument" where
  "emptyArgument =
     \<lparr>Name = [], ShortName = [], Description = [], IsRequired = False, ArgType = StringType,
      DefaultVal = None, ValidChoices = [], value' = None, isSet = False,
      isPositional = False\<rparr>"

text \<open>The \<open>options\<close> pointer of a registering method: \<open>None\<close> is \<open>nil\<close>.\<close>

definition orEmpty :: "('f, 't) Argument option \<Rightarrow> ('f, 't) Argument" where
  "orEmpty options = (case options of None \<Rightarrow> emptyArgument | Some a \<Rightarrow> a)"

definition setArgs :: "('f, 't) Parser \<Rightarrow> ('f, 't) Argument list \<Rightarrow> ('f, 't) Parser" where
  "setArgs p as =
     Parser (name p) (description p) (epilog p) (version p) as (positional p)
       (subparsers p) (subparser p)"

definition setPositional :: "('f, 't) Parser \<Rightarrow> ('f, 't) Argument list \<Rightarrow> ('f, 't) Parser" where
  "setPositional p ps =
     Parser (name p) (description p) (epilog p) (version p) (args p) ps
       (subparsers p) (subparser p)"

definition setSubparsers ::
  "('f, 't) Parser \<Rightarrow> (string \<times> ('f, 't) Parser) list \<Rightarrow> ('f, 't) Parser" where
  "setSubparsers p subs =
     Parser (name p) (description p) (epilog p) (version p) (args p) (positional p)
       subs (subparser p)"

definition NewParser :: "string \<Rightarrow> string \<Rightarrow> ('f, 't) Parser" where
  "NewParser n d = Parser n d [] ''1.0.0'' [] [] [] []"

text \<open>
  The registering methods. In Go they append the \<open>options\<close> object to the parser and
  return it; here they return the parser, and the fluent setters that the source calls on
  the returned pointer (\<open>Required\<close>, \<open>Default\<close>, \<open>Help\<close>, \<open>Choices\<close>) are applied to the
  definition registered last with \<open>onLast\<close>. Every registration is taken to pass an
  \<open>options\<close> object of its own.
\<close>

definition Flag ::
  "string \<Rightarrow> string \<Rightarrow> ('f, 't) Argument option \<Rightarrow> ('f, 't) Parser \<Rightarrow> ('f, 't) Parser" where
  "Flag shortName longName options p =
     setArgs p (args p @
       [(orEmpty options)\<lparr>ShortName := shortName, Name := longName, isPositional := False\<rparr>])"

definition StringArg ::
  "string \<Rightarrow> string \<Rightarrow> ('f, 't) Argument option \<Rightarrow> ('f, 't) Parser \<Rightarrow> ('f, 't) Parser" where
  "StringArg shortName longName options p =
     Flag shortName longName (Some ((orEmpty options)\<lparr>ArgType := StringType\<rparr>)) p"

definition IntArg ::
  "string \<Rightarrow> string \<Rightarrow> ('f, 't) Argument option \<Rightarrow> ('f, 't) Parser \<Rightarrow> ('f, 't) Parser" where
  "IntArg shortName longName options p =
     Flag shortName longName (Some ((orEmpty options)\<lparr>ArgType := IntType\<rparr>)) p"

definition BoolArg ::
  "string \<Rightarrow> string \<Rightarrow> ('f, 't) Argument option \<Rightarrow> ('f, 't) Parser \<Rightarrow> ('f, 't) Parser" where
  "BoolArg shortName longName options p =
     Flag shortName longName
       (Some ((orEmpty options)\<lparr>ArgType := BoolType, DefaultVal := Some (VBool False)\<rparr>)) p"

definition CounterArg ::
  "string \<Rightarrow> string \<Rightarrow> ('f, 't) Argument option \<Rightarrow> ('f, 't) Parser \<Rightarrow> ('f, 't) Parser" where
  "CounterArg shortName longName options p =
     Flag shortName longName
       (Some ((orEmpty options)\<lparr>ArgType := CounterType,
          DefaultVal := (case DefaultVal (orEmpty options) of
                           None \<Rightarrow> Some (VInt 0) | Some d \<Rightarrow> Some d)\<rparr>)) p"

definition Positional ::
  "string \<Rightarrow> ('f, 't) Argument option \<Rightarrow> ('f, 't) Parser \<Rightarrow> ('f, 't) Parser" where
  "Positional n options p =
     setPositional p (positional p @ [(orEmpty options)\<lparr>Name := n, isPositional := True\<rparr>])"

definition AddHelp :: "('f, 't) Parser \<Rightarrow> ('f, 't) Parser" where
  "AddHelp p =
     Flag ''h'' ''help''
       (Some (emptyArgument\<lparr>Description := ''Show this help message and exit'',
          ArgType := BoolType, DefaultVal := Some (VBool False)\<rparr>)) p"

definition AddVersion :: "('f, 't) Parser \<Rightarrow> ('f, 't) Parser" where
  "AddVersion p =
     Flag ''V'' ''version''
       (Some (emptyArgument\<lparr>Description := ''Show program's version and exit'',
          ArgType := BoolType, DefaultVal := Some (VBool False)\<rparr>)) p"

text \<open>
  \<open>NewCommand\<close> stores a fresh child parser under the name, replacing an earlier child
  of that name. The source then fills the child through \<open>cmd.Parser\<close>; \<open>onCommand\<close>
  applies such a sequence of registrations to the stored child.
\<close>

definition NewCommand :: "string \<Rightarrow> string \<Rightarrow> ('f, 't) Parser \<Rightarrow> ('f, 't) Parser" where
  "NewCommand n d p =
     setSubparsers p
       ((n, Parser n d [] (version p) [] [] [] []) # filter (\<lambda>kv. fst kv \<noteq> n) (subparsers p))"

definition onCommand ::
  "string \<Rightarrow> (('f, 't) Parser \<Rightarrow> ('f, 't) Parser) \<Rightarrow> ('f, 't) Parser \<Rightarrow> ('f, 't) Parser" where
  "onCommand n f p =
     setSubparsers p (map (\<lambda>kv. if fst kv = n then (fst kv, f (snd kv)) else kv) (subparsers p))"

definition Required :: "('f, 't) Argument \<Rightarrow> ('f, 't) Argument" where
  "Required a = a\<lparr>IsRequired := True\<rparr>"

definition Default :: "('f, 't) val \<Rightarrow> ('f, 't) Argument \<Rightarrow> ('f, 't) Argument" where
  "Default v a = a\<lparr>DefaultVal := Some v\<rparr>"

definition Choices :: "string list \<Rightarrow> ('f, 't) Argument \<Rightarrow> ('f, 't) Argument" where
  "Choices choices a = a\<lparr>ValidChoices := choices\<rparr>"

definition onLast ::
  "(('f, 't) Argument \<Rightarrow> ('f, 't) Argument) \<Rightarrow> ('f, 't) Parser \<Rightarrow> ('f, 't) Parser" where
  "onLast f p =
     (case rev (args p) of [] \<Rightarrow> p | a # as \<Rightarrow> setArgs p (rev as @ [f a]))"

section \<open>Parse\<close>

text \<open>
  The local state of one call of \<open>Parse\<close>: the result map, the two definition lists of
  the parser with their \<open>isSet\<close> marks (the only fields \<open>Parse\<close> writes), and the three
  local variables of the walk. The marks a call leaves on the parser, and the field
  \<open>subparser\<close> it sets (read nowhere), are not returned: a later call on the same parser
  is covered by letting its marks be arbitrary.
\<close>

record ('f, 't) pstate =
  result :: "string \<rightharpoonup> ('f, 't) val"
  optionS :: "('f, 't) Argument list"
  positionalS :: "('f, 't) Argument list"
  positionalIndex :: nat
  hasVersionFlag :: bool
  hasHelpFlag :: bool

text \<open>The two loops that put the default values into the fresh result map.\<close>

definition addDefaults ::
  "('f, 't) Argument list \<Rightarrow> (string \<rightharpoonup> ('f, 't) val) \<Rightarrow> (string \<rightharpoonup> ('f, 't) val)" where
  "addDefaults as r =
     foldl (\<lambda>m a. case DefaultVal a of None \<Rightarrow> m | Some d \<Rightarrow> m(Name a \<mapsto> d)) r as"

definition seed :: "('f, 't) Parser \<Rightarrow> (string \<rightharpoonup> ('f, 't) val)" where
  "seed p = addDefaults (positional p) (addDefaults (args p) Map.empty)"

definition initState :: "('f, 't) Parser \<Rightarrow> ('f, 't) pstate" where
  "initState p =
     \<lparr>result = seed p, optionS = args p, positionalS = positional p, positionalIndex = 0,
      hasVersionFlag = False, hasHelpFlag = False\<rparr>"

text \<open>
  \<open>for _, option := range p.args { if <match> { ...; break } }\<close>: the first definition
  that matches is the one used, and \<open>markFirst\<close> sets its \<open>isSet\<close>.
\<close>

fun markFirst :: "(('f, 't) Argument \<Rightarrow> bool) \<Rightarrow> ('f, 't) Argument list \<Rightarrow> ('f, 't) Argument list" where
  "markFirst P [] = []"
| "markFirst P (a # as) = (if P a then a\<lparr>isSet := True\<rparr> # as else a # markFirst P as)"

text \<open>\<open>result[option.Name] = v; option.isSet = true\<close> for the first definition with \<open>P\<close>.\<close>

definition store ::
  "(('f, 't) Argument \<Rightarrow> bool) \<Rightarrow> string \<Rightarrow> ('f, 't) val \<Rightarrow> ('f, 't) pstate \<Rightarrow> ('f, 't) pstate" where
  "store P n v st = st\<lparr>result := (result st)(n \<mapsto> v), optionS := markFirst P (optionS st)\<rparr>"

text \<open>\<open>count, _ := result[option.Name].(int)\<close>: zero unless the entry is an \<open>int\<close>.\<close>

definition asInt :: "(string \<rightharpoonup> ('f, 't) val) \<Rightarrow> string \<Rightarrow> int" where
  "asInt r n = (case r n of Some (VInt c) \<Rightarrow> c | _ \<Rightarrow> 0)"

definition wrap64 :: "int \<Rightarrow> int" where
  "wrap64 x = (x + 2 ^ 63) mod 2 ^ 64 - 2 ^ 63"

text \<open>The help and version checks made on the name before the definitions are searched.\<close>

definition noteFlags :: "string \<Rightarrow> string \<Rightarrow> string \<Rightarrow> ('f, 't) pstate \<Rightarrow> ('f, 't) pstate" where
  "noteFlags n helpName versionName st =
     (if n = helpName then st\<lparr>hasHelpFlag := True, result := (result st)(''help'' \<mapsto> VBool True)\<rparr>
      else if n = versionName
        then st\<lparr>hasVersionFlag := True, result := (result st)(''version'' \<mapsto> VBool True)\<rparr>
      else st)"

text \<open>
  The branch \<open>i+1 < len(args) && !strings.HasPrefix(args[i+1], "-")\<close>, shared by long and
  short options: the next token is taken as the value, or the option lacks one. \<open>shown\<close>
  is the option as the error message prints it. The number returned with the state is
  the number of look-ahead tokens consumed (the \<open>i++\<close>).
\<close>

definition takeNext ::
  "('f, 't) stdlib \<Rightarrow> (('f, 't) Argument \<Rightarrow> bool) \<Rightarrow> ('f, 't) Argument \<Rightarrow> string \<Rightarrow> string list
   \<Rightarrow> ('f, 't) pstate \<Rightarrow> error + (('f, 't) pstate \<times> nat)" where
  "takeNext L P option shown rest st =
     (case rest of
        [] \<Rightarrow> Inl (RequiresValue shown)
      | nxt # _ \<Rightarrow>
          if \<not> HasPrefix nxt ''-''
          then (case parseValue L (ArgType option) nxt of
                  Inl e \<Rightarrow> Inl (InvalidValue shown e)
                | Inr v \<Rightarrow> Inr (store P (Name option) v st, 1))
          else Inl (RequiresValue shown))"

text \<open>
  A token that starts with \<open>--\<close>. \<open>strings.SplitN(arg[2:], "=", 2)\<close> gives the name (up to
  the first \<open>=\<close>) and, when there is an \<open>=\<close>, the value after it.
\<close>

definition longOption ::
  "('f, 't) stdlib \<Rightarrow> string \<Rightarrow> string list \<Rightarrow> ('f, 't) pstate
   \<Rightarrow> error + (('f, 't) pstate \<times> nat)" where
  "longOption L arg rest st0 =
     (let body = drop 2 arg;
          n = takeWhile (\<lambda>c. c \<noteq> CHR ''='') body;
          hasValue = (CHR ''='' \<in> set body);
          v = drop 1 (dropWhile (\<lambda>c. c \<noteq> CHR ''='') body);
          st = noteFlags n ''help'' ''version'' st0;
          P = (\<lambda>a. Name a = n)
      in case find P (optionS st) of
           None \<Rightarrow> Inl (UnknownArgument (''--'' @ n))
         | Some option \<Rightarrow>
             (case ArgType option of
                BoolType \<Rightarrow> Inr (store P (Name option) (VBool True) st, 0)
              | CounterType \<Rightarrow>
                  Inr (store P (Name option)
                         (VInt (wrap64 (asInt (result st) (Name option) + 1))) st, 0)
              | _ \<Rightarrow>
                  if hasValue
                  then (case parseValue L (ArgType option) v of
                          Inl e \<Rightarrow> Inl (InvalidValue (''--'' @ n) e)
                        | Inr x \<Rightarrow> Inr (store P (Name option) x st, 0))
                  else takeNext L P option (''--'' @ n) rest st))"

text \<open>
  The runes of a short cluster. \<open>for j, shortOpt := range shortName\<close> decodes the string
  as UTF-8: at each position it reads one rune, of one to four bytes, and a byte that
  starts no well-formed encoding is read as the rune \<open>U+FFFD\<close> of width one.
  \<open>leadInfo\<close> is the table of the decoder: for a first byte that opens an encoding of two
  to four bytes, the size and the range the second byte must lie in; every further byte
  must lie in \<open>0x80..0xBF\<close>.
\<close>

definition inRange :: "nat \<Rightarrow> nat \<Rightarrow> char \<Rightarrow> bool" where
  "inRange lo hi c = (lo \<le> of_char c \<and> of_char c \<le> hi)"

definition leadInfo :: "char \<Rightarrow> (nat \<times> nat \<times> nat) option" where
  "leadInfo c =
     (let b = (of_char c :: nat)
      in if 194 \<le> b \<and> b \<le> 223 then Some (2, 128, 191)
         else if b = 224 then Some (3, 160, 191)
         else if 225 \<le> b \<and> b \<le> 236 then Some (3, 128, 191)
         else if b = 237 then Some (3, 128, 159)
         else if 238 \<le> b \<and> b \<le> 239 then Some (3, 128, 191)
         else if b = 240 then Some (4, 144, 191)
         else if 241 \<le> b \<and> b \<le> 243 then Some (4, 128, 191)
         else if b = 244 then Some (4, 128, 143)
         else None)"

fun contOk :: "nat \<Rightarrow> string \<Rightarrow> bool" where
  "contOk 0 s = True"
| "contOk (Suc k) [] = False"
| "contOk (Suc k) (c # cs) = (inRange 128 191 c \<and> contOk k cs)"

text \<open>Whether the string starts with a well-formed encoding (one ASCII byte, or more).\<close>

definition validRune :: "string \<Rightarrow> bool" where
  "validRune s =
     (case s of
        [] \<Rightarrow> False
      | c # cs \<Rightarrow>
          (case leadInfo c of
             None \<Rightarrow> (of_char c :: nat) < 128
           | Some (sz, lo, hi) \<Rightarrow>
               (case cs of
                  [] \<Rightarrow> False
                | c1 # cs' \<Rightarrow> inRange lo hi c1 \<and> contOk (sz - 2) cs')))"

text \<open>The number of bytes the loop advances by, and \<open>string(shortOpt)\<close>.\<close>

definition runeWidth :: "string \<Rightarrow> nat" where
  "runeWidth s =
     (if validRune s
      then (case leadInfo (hd s) of None \<Rightarrow> 1 | Some (sz, lo, hi) \<Rightarrow> sz)
      else 1)"

definition runeText :: "string \<Rightarrow> string" where
  "runeText s =
     (if validRune s then take (runeWidth s) s
      else [char_of (239 :: nat), char_of (191 :: nat), char_of (189 :: nat)])"

text \<open>
  The loop \<open>for j, shortOpt := range shortName\<close> over a short cluster. The function is
  called on the bytes from position \<open>j\<close> on, \<open>c # cs\<close>: the rune at \<open>j\<close> starts with \<open>c\<close>,
  \<open>cs\<close> is \<open>shortName[j+1:]\<close>, and \<open>cs \<noteq> []\<close> is both \<open>j < len(shortName)-1\<close> and
  \<open>j+1 < len(shortName)\<close> (\<open>j\<close> and \<open>len\<close> count bytes). The next iteration starts after
  the rune, at \<open>drop (runeWidth (c # cs) - 1) cs\<close>.

  After a boolean or counter alias, \<open>j\<close> is still the position of the rune, and the last
  statement of the loop body, \<open>if j+1 < len(shortName) { break }\<close>, leaves the loop
  whenever a byte follows. After a value-taking alias that is not the last byte, the body
  has set \<open>j = len(shortName)\<close>, so that test is false and the loop goes on: \<open>range\<close>
  gives \<open>j\<close> and \<open>shortOpt\<close> their next values whatever the body assigned.
\<close>

fun cluster ::
  "('f, 't) stdlib \<Rightarrow> string \<Rightarrow> string list \<Rightarrow> ('f, 't) pstate
   \<Rightarrow> error + (('f, 't) pstate \<times> nat)" where
  "cluster L [] rest st = Inr (st, 0)"
| "cluster L (c # cs) rest st =
     (case find (\<lambda>a. ShortName a = runeText (c # cs)) (optionS st) of
        None \<Rightarrow> Inl (UnknownArgument (CHR ''-'' # runeText (c # cs)))
      | Some option \<Rightarrow>
          (case ArgType option of
             BoolType \<Rightarrow>
               (let st' = store (\<lambda>a. ShortName a = runeText (c # cs)) (Name option) (VBool True) st
                in if cs \<noteq> [] then Inr (st', 0)
                   else cluster L (drop (runeWidth (c # cs) - 1) cs) rest st')
           | CounterType \<Rightarrow>
               (let st' = store (\<lambda>a. ShortName a = runeText (c # cs)) (Name option)
                            (VInt (wrap64 (asInt (result st) (Name option) + 1))) st
                in if cs \<noteq> [] then Inr (st', 0)
                   else cluster L (drop (runeWidth (c # cs) - 1) cs) rest st')
           | _ \<Rightarrow>
               if cs \<noteq> []
               then (case parseValue L (ArgType option) cs of
                       Inl e \<Rightarrow> Inl (InvalidValue (CHR ''-'' # runeText (c # cs)) e)
                     | Inr x \<Rightarrow>
                         cluster L (drop (runeWidth (c # cs) - 1) cs) rest
                           (store (\<lambda>a. ShortName a = runeText (c # cs)) (Name option) x st))
               else takeNext L (\<lambda>a. ShortName a = runeText (c # cs)) option
                      (CHR ''-'' # runeText (c # cs)) rest st))"

text \<open>A token that starts with one dash: \<open>shortName := arg[1:]\<close>, the checks, the loop.\<close>

definition shortOption ::
  "('f, 't) stdlib \<Rightarrow> string \<Rightarrow> string list \<Rightarrow> ('f, 't) pstate
   \<Rightarrow> error + (('f, 't) pstate \<times> nat)" where
  "shortOption L arg rest st = cluster L (drop 1 arg) rest (noteFlags (drop 1 arg) ''h'' ''V'' st)"

text \<open>A token without a leading dash.\<close>

definition positionalArg ::
  "('f, 't) stdlib \<Rightarrow> string \<Rightarrow> ('f, 't) pstate \<Rightarrow> error + (('f, 't) pstate \<times> nat)" where
  "positionalArg L arg st =
     (if positionalIndex st < length (positionalS st)
      then (let pos = positionalS st ! positionalIndex st
            in case parseValue L (ArgType pos) arg of
                 Inl e \<Rightarrow> Inl (InvalidValue (Name pos) e)
               | Inr v \<Rightarrow>
                   Inr (st\<lparr>result := (result st)(Name pos \<mapsto> v),
                           positionalS := (positionalS st)[positionalIndex st := pos\<lparr>isSet := True\<rparr>],
                           positionalIndex := positionalIndex st + 1\<rparr>, 0))
      else Inl (UnrecognizedPositional arg))"

text \<open>One iteration of the main loop on the token \<open>arg\<close>, the tokens after it being \<open>rest\<close>.\<close>

definition step ::
  "('f, 't) stdlib \<Rightarrow> string \<Rightarrow> string list \<Rightarrow> ('f, 't) pstate
   \<Rightarrow> error + (('f, 't) pstate \<times> nat)" where
  "step L arg rest st =
     (if HasPrefix arg ''-''
      then (if HasPrefix arg ''--'' then longOption L arg rest st else shortOption L arg rest st)
      else positionalArg L arg st)"

text \<open>The main loop, from the token it is at to the end of the input.\<close>

fun walk ::
  "('f, 't) stdlib \<Rightarrow> string list \<Rightarrow> ('f, 't) pstate \<Rightarrow> error + ('f, 't) pstate" where
  "walk L [] st = Inr st"
| "walk L (arg # rest) st =
     (case step L arg rest st of
        Inl e \<Rightarrow> Inl e
      | Inr (st', k) \<Rightarrow> walk L (drop k rest) st')"

text \<open>The two loops that check the required definitions after the walk.\<close>

definition missing :: "('f, 't) Argument \<Rightarrow> bool" where
  "missing a = (IsRequired a \<and> \<not> isSet a)"

definition requiredError :: "('f, 't) Argument \<Rightarrow> error" where
  "requiredError a =
     (if isPositional a then RequiredMissing (Name a)
      else if ShortName a \<noteq> [] then RequiredMissing (''--'' @ Name a @ ''/-'' @ ShortName a)
      else RequiredMissing (''--'' @ Name a))"

definition checkRequired :: "('f, 't) pstate \<Rightarrow> ('f, 't) outcome" where
  "checkRequired st =
     (case find missing (optionS st) of
        Some a \<Rightarrow> Err (requiredError a)
      | None \<Rightarrow>
          (case find missing (positionalS st) of
             Some a \<Rightarrow> Err (RequiredPositionalMissing (Name a))
           | None \<Rightarrow> Ok (result st)))"

text \<open>
  \<open>Parse\<close> when no subcommand takes over: the walk from the seeded state, then the exits
  for help and version, then the required checks.
\<close>

definition parseOwn :: "('f, 't) stdlib \<Rightarrow> ('f, 't) Parser \<Rightarrow> string list \<Rightarrow> ('f, 't) outcome" where
  "parseOwn L p ts =
     (case walk L ts (initState p) of
        Inl e \<Rightarrow> Err e
      | Inr st \<Rightarrow>
          if hasHelpFlag st then ExitHelp
          else if hasVersionFlag st then ExitVersion
          else checkRequired st)"

text \<open>
  \<open>Parse\<close> on the token sequence it works on (the caller's \<open>args\<close>, or \<open>os.Args[1:]\<close> when
  the caller passes \<open>nil\<close>). The subcommand test sits at the head of the loop body under
  \<open>i == 0\<close>, so it is made once, on the first token, before that token is looked at in any
  other way; when it does not apply the loop runs over all tokens. An exit of the child's
  parse ends the process, so it is the outcome of the outer call too.
\<close>

fun Parse :: "('f, 't) stdlib \<Rightarrow> ('f, 't) Parser \<Rightarrow> string list \<Rightarrow> ('f, 't) outcome" where
  "Parse L p [] = parseOwn L p []"
| "Parse L p (arg # rest) =
     (if subparsers p \<noteq> []
      then (case map_of (subparsers p) arg of
              Some sub \<Rightarrow>
                (case Parse L sub rest of
                   Err e \<Rightarrow> Err e
                 | Ok subResult \<Rightarrow> Ok ((seed p)(''subcommand'' \<mapsto> VString arg) ++ subResult)
                 | ExitHelp \<Rightarrow> ExitHelp
                 | ExitVersion \<Rightarrow> ExitVersion)
            | None \<Rightarrow> parseOwn L p (arg # rest))
      else parseOwn L p (arg # rest))"

section \<open>The typed getters\<close>

text \<open>
  \<open>Get\<close> runs \<open>p.Parse(nil)\<close>, that is, it parses the arguments of the process,
  \<open>osArgs\<close>, again, drops the error and reads the map (a nil map when \<open>Parse\<close> failed, on
  which every read gives nil). When that parse exits for help or version, the getter does
  not return.
\<close>

datatype 'a call = Returned 'a | Exited

definition Get ::
  "('f, 't) stdlib \<Rightarrow> ('f, 't) Parser \<Rightarrow> string list \<Rightarrow> string \<Rightarrow> ('f, 't) val option call" where
  "Get L p osArgs n =
     (case Parse L p osArgs of
        Ok r \<Rightarrow> Returned (r n)
      | Err e \<Rightarrow> Returned None
      | ExitHelp \<Rightarrow> Exited
      | ExitVersion \<Rightarrow> Exited)"

text \<open>\<open>fmt.Sprintf("%v", val)\<close> on the stored dynamic types.\<close>

fun natDigits :: "nat \<Rightarrow> string" where
  "natDigits n =
     (if n < 10 then [char_of (48 + n)]
      else natDigits (n div 10) @ [char_of (48 + n mod 10)])"

definition itoa :: "int \<Rightarrow> string" where
  "itoa i = (if i < 0 then CHR ''-'' # natDigits (nat (- i)) else natDigits (nat i))"

fun joinWith :: "string \<Rightarrow> string list \<Rightarrow> string" where
  "joinWith sep [] = []"
| "joinWith sep [x] = x"
| "joinWith sep (x # y # ys) = x @ sep @ joinWith sep (y # ys)"

fun sprintv :: "('f, 't) stdlib \<Rightarrow> ('f, 't) val \<Rightarrow> string" where
  "sprintv L (VString s) = s"
| "sprintv L (VInt i) = itoa i"
| "sprintv L (VFloat x) = fmtFloat L x"
| "sprintv L (VBool b) = (if b then ''true'' else ''false'')"
| "sprintv L (VList xs) = ''['' @ joinWith '' '' xs @ '']''"
| "sprintv L (VTime t) = fmtTime L t"

definition GetString ::
  "('f, 't) stdlib \<Rightarrow> ('f, 't) Parser \<Rightarrow> string list \<Rightarrow> string \<Rightarrow> string call" where
  "GetString L p osArgs n =
     (case Get L p osArgs n of
        Exited \<Rightarrow> Exited
      | Returned None \<Rightarrow> Returned []
      | Returned (Some (VString str)) \<Rightarrow> Returned str
      | Returned (Some v) \<Rightarrow> Returned (sprintv L v))"

definition GetInt ::
  "('f, 't) stdlib \<Rightarrow> ('f, 't) Parser \<Rightarrow> string list \<Rightarrow> string \<Rightarrow> int call" where
  "GetInt L p osArgs n =
     (case Get L p osArgs n of
        Exited \<Rightarrow> Exited
      | Returned None \<Rightarrow> Returned 0
      | Returned (Some (VInt i)) \<Rightarrow> Returned i
      | Returned (Some v) \<Rightarrow> Returned 0)"

definition GetFloat ::
  "('f, 't) stdlib \<Rightarrow> ('f, 't) Parser \<Rightarrow> string list \<Rightarrow> string \<Rightarrow> 'f call" where
  "GetFloat L p osArgs n =
     (case Get L p osArgs n of
        Exited \<Rightarrow> Exited
      | Returned None \<Rightarrow> Returned (zeroFloat L)
      | Returned (Some (VFloat f)) \<Rightarrow> Returned f
      | Returned (Some v) \<Rightarrow> Returned (zeroFloat L))"

definition GetBool ::
  "('f, 't) stdlib \<Rightarrow> ('f, 't) Parser \<Rightarrow> string list \<Rightarrow> string \<Rightarrow> bool call" where
  "GetBool L p osArgs n =
     (case Get L p osArgs n of
        Exited \<Rightarrow> Exited
      | Returned None \<Rightarrow> Returned False
      | Returned (Some (VBool b)) \<Rightarrow> Returned b
      | Returned (Some v) \<Rightarrow> Returned False)"

definition GetList ::
  "('f, 't) stdlib \<Rightarrow> ('f, 't) Parser \<Rightarrow> string list \<Rightarrow> string \<Rightarrow> string list call" where
  "GetList L p osArgs n =
     (case Get L p osArgs n of
        Exited \<Rightarrow> Exited
      | Returned None \<Rightarrow> Returned []
      | Returned (Some (VList xs)) \<Rightarrow> Returned xs
      | Returned (Some v) \<Rightarrow> Returned [])"

definition GetDateTime ::
  "('f, 't) stdlib \<Rightarrow> ('f, 't) Parser \<Rightarrow> string list \<Rightarrow> string \<Rightarrow> 't call" where
  "GetDateTime L p osArgs n =
     (case Get L p osArgs n of
        Exited \<Rightarrow> Exited
      | Returned None \<Rightarrow> Returned (zeroTime L)
      | Returned (Some (VTime t)) \<Rightarrow> Returned t
      | Returned (Some v) \<Rightarrow> Returned (zeroTime L))"

section \<open>Reading an outcome; the parsers of the examples\<close>

definition isOk :: "('f, 't) outcome \<Rightarrow> bool" where
  "isOk out = (case out of Ok r \<Rightarrow> True | _ \<Rightarrow> False)"

definition entry :: "('f, 't) outcome \<Rightarrow> string \<Rightarrow> ('f, 't) val option" where
  "entry out k = (case out of Ok r \<Rightarrow> r k | _ \<Rightarrow> None)"

definition isErr :: "('f, 't) outcome \<Rightarrow> bool" where
  "isErr out = (case out of Err e \<Rightarrow> True | _ \<Rightarrow> False)"

definition failure :: "('f, 't) outcome \<Rightarrow> error option" where
  "failure out = (case out of Err e \<Rightarrow> Some e | _ \<Rightarrow> None)"


text \<open>Whether \<open>Parse\<close> hands the input over to a subcommand.\<close>

definition delegates :: "('f, 't) Parser \<Rightarrow> string list \<Rightarrow> bool" where
  "delegates p ts =
     (case ts of
        [] \<Rightarrow> False
      | arg # rest \<Rightarrow> subparsers p \<noteq> [] \<and> map_of (subparsers p) arg \<noteq> None)"

text \<open>A standard library for the examples: it parses no float and no timestamp.\<close>

definition noLib :: "(nat, nat) stdlib" where
  "noLib =
     \<lparr>ParseFloat = (\<lambda>s. None), timeParse = (\<lambda>f s. None), zeroFloat = 0, zeroTime = 0,
      fmtFloat = (\<lambda>x. ''float''), fmtTime = (\<lambda>t. ''time'')\<rparr>"

text \<open>
  The \<open>--choice\<close> definition of the example program \<open>complete\<close>:
  \<open>parser.String("", "choice", &Argument{DefaultVal: "option1"}).Choices(...)\<close>.
\<close>

definition choiceParser :: "(nat, nat) Parser" where
  "choiceParser =
     onLast (Choices [''option1'', ''option2'', ''option3''])
       (StringArg [] ''choice'' (Some (emptyArgument\<lparr>DefaultVal := Some (VString ''option1'')\<rparr>))
          (NewParser ''complete'' ''Demonstration of all argument types''))"

text \<open>\<open>parser.Int("p", "port", nil)\<close> on a new parser.\<close>

definition portParser :: "(nat, nat) Parser" where
  "portParser = IntArg ''p'' ''port'' None (NewParser ''app'' [])"

text \<open>Two boolean flags \<open>-a\<close>, \<open>-b\<close> and a text option \<open>-c\<close>.\<close>

definition abcParser :: "(nat, nat) Parser" where
  "abcParser =
     StringArg ''c'' ''gamma'' None
       (BoolArg ''b'' ''beta'' None
          (BoolArg ''a'' ''alpha'' None (NewParser ''app'' [])))"

text \<open>
  The tokens of an input, read without running the loop.
  \<^item> A help token is \<open>-h\<close>, or a token that starts with \<open>--\<close> and whose name, the part
    before the first \<open>=\<close>, is \<open>help\<close> (\<open>--help\<close>, \<open>--help=x\<close>); a version token is \<open>-V\<close> or
    a long token of the name \<open>version\<close>.
  \<^item> A token addresses an optional definition when it is a long token of the definition's
    name, or a token with one leading dash in which the definition's alias can be read as
    a rune at some position. The loop can reach a definition through such a token only.
  \<^item> \<open>dashless\<close> counts the tokens without a leading dash; only these can fill positional
    slots (one that follows an option may be taken as the option's value instead).
  \<^item> \<open>notSupplied p ts m\<close>, for the \<open>m\<close>-th definition of \<open>p\<close> (optional ones first): no
    token of \<open>ts\<close> addresses it when it is optional, and \<open>ts\<close> has too few dashless tokens
    to reach its slot when it is positional.
\<close>

definition longName :: "string \<Rightarrow> string" where
  "longName t = takeWhile (\<lambda>c. c \<noteq> CHR ''='') (drop 2 t)"

definition isHelpToken :: "string \<Rightarrow> bool" where
  "isHelpToken t = (if HasPrefix t ''--'' then longName t = ''help'' else t = ''-h'')"

definition isVersionToken :: "string \<Rightarrow> bool" where
  "isVersionToken t = (if HasPrefix t ''--'' then longName t = ''version'' else t = ''-V'')"

fun tails :: "string \<Rightarrow> string list" where
  "tails [] = []"
| "tails (c # cs) = (c # cs) # tails cs"

definition addresses :: "('f, 't) Argument \<Rightarrow> string \<Rightarrow> bool" where
  "addresses a t =
     (if HasPrefix t ''--'' then longName t = Name a
      else HasPrefix t ''-'' \<and> list_ex (\<lambda>u. runeText u = ShortName a) (tails (drop 1 t)))"

definition dashless :: "string list \<Rightarrow> nat" where
  "dashless ts = length (filter (\<lambda>t. \<not> HasPrefix t ''-'') ts)"

definition notSupplied :: "('f, 't) Parser \<Rightarrow> string list \<Rightarrow> nat \<Rightarrow> bool" where
  "notSupplied p ts m =
     (if m < length (args p) then \<not> list_ex (addresses (args p ! m)) ts
      else dashless ts \<le> m - length (args p))"



text \<open>How a definition may differ after a walk from what it was before: by its mark.\<close>

definition marked :: "('f, 't) Argument \<Rightarrow> ('f, 't) Argument \<Rightarrow> bool" where
  "marked a a' = (a' = a \<or> a' = a\<lparr>isSet := True\<rparr>)"


text \<open>
  The keys a walk over \<open>ts\<close> from \<open>st\<close> may write when it fills the positional slots
  below \<open>hi\<close>.
\<close>

definition touched :: "('f, 't) pstate \<Rightarrow> string list \<Rightarrow> nat \<Rightarrow> string \<Rightarrow> bool" where
  "touched st ts hi k =
     ((\<exists>a \<in> set (optionS st). Name a = k \<and> list_ex (addresses a) ts)
      \<or> (\<exists>i. positionalIndex st \<le> i \<and> i < hi \<and> i < length (positionalS st)
               \<and> Name (positionalS st ! i) = k)
      \<or> (k = ''help'' \<and> list_ex isHelpToken ts)
      \<or> (k = ''version'' \<and> list_ex isVersionToken ts))"

text \<open>The keys a walk that has reached \<open>st\<close> may have written in the result map.\<close>

definition wrote :: "('f, 't) pstate \<Rightarrow> string \<Rightarrow> bool" where
  "wrote st k =
     ((\<exists>a \<in> set (optionS st @ positionalS st). Name a = k \<and> isSet a)
      \<or> (hasHelpFlag st \<and> k = ''help'')
      \<or> (hasVersionFlag st \<and> k = ''version''))"

definition extends :: "('f, 't) pstate \<Rightarrow> ('f, 't) pstate \<Rightarrow> bool" where
  "extends st st' =
     (list_all2 marked (optionS st) (optionS st')
      \<and> list_all2 marked (positionalS st) (positionalS st')
      \<and> (hasHelpFlag st \<longrightarrow> hasHelpFlag st')
      \<and> (hasVersionFlag st \<longrightarrow> hasVersionFlag st')
      \<and> (\<forall>k. \<not> wrote st' k \<longrightarrow> result st' k = result st k))"

text \<open>A parser with nothing registered, and one after \<open>AddHelp()\<close> and \<open>AddVersion()\<close>.\<close>

definition bareParser :: "(nat, nat) Parser" where
  "bareParser = NewParser ''app'' []"

definition helpParser :: "(nat, nat) Parser" where
  "helpParser = AddVersion (AddHelp (NewParser ''app'' []))"

text \<open>\<open>parser.Int("i", "integer", &Argument{DefaultVal: 42})\<close>, as in the example program.\<close>

definition intParser :: "(nat, nat) Parser" where
  "intParser =
     IntArg ''i'' ''integer'' (Some (emptyArgument\<lparr>DefaultVal := Some (VInt 42)\<rparr>))
       (NewParser ''complete'' [])"

text \<open>
  The task manager of the documentation: a subcommand \<open>add\<close> with a required option
  \<open>-t/--title\<close>, a subcommand \<open>list\<close>, and a required option \<open>--user\<close> of the root itself.
\<close>

definition taskParser :: "(nat, nat) Parser" where
  "taskParser =
     onCommand ''add'' (StringArg ''t'' ''title'' (Some (emptyArgument\<lparr>IsRequired := True\<rparr>)))
       (NewCommand ''list'' ''List all tasks''
          (NewCommand ''add'' ''Add a new task''
             (StringArg ''u'' ''user'' (Some (emptyArgument\<lparr>IsRequired := True\<rparr>))
                (NewParser ''taskmgr'' ''Task management application''))))"

text \<open>A subcommand \<open>a\<close> that has a subcommand \<open>b\<close> of its own.\<close>

definition nestedParser :: "(nat, nat) Parser" where
  "nestedParser =
     onCommand ''a'' (NewCommand ''b'' [])
       (NewCommand ''a'' [] (NewParser ''root'' []))"



text \<open>
  \<open>parser.Bool("v", "verbose", &Argument{DefaultVal: true})\<close>, alone and under a root
  whose subcommand \<open>run\<close> has a text option of the same name with the default \<open>loud\<close>.
\<close>

definition verboseParser :: "(nat, nat) Parser" where
  "verboseParser =
     BoolArg ''v'' ''verbose'' (Some (emptyArgument\<lparr>DefaultVal := Some (VBool True)\<rparr>))
       (NewParser ''app'' [])"

definition verboseRunParser :: "(nat, nat) Parser" where
  "verboseRunParser =
     onCommand ''run''
       (StringArg [] ''verbose'' (Some (emptyArgument\<lparr>DefaultVal := Some (VString ''loud'')\<rparr>)))
       (NewCommand ''run'' [] verboseParser)"




text \<open>\<open>parser.Bool("v", "verbose", nil).Default(true)\<close>.\<close>

definition eagerParser :: "(nat, nat) Parser" where
  "eagerParser =
     onLast (Default (VBool True)) (BoolArg ''v'' ''verbose'' None (NewParser ''app'' []))"

text \<open>
  A flag \<open>-v/--verbose\<close> registered with \<open>Bool\<close> and the default \<open>true\<close> in its options
  object, then an option \<open>-o/--output\<close>, then an empty subcommand \<open>run\<close>.
\<close>

definition flagFirstParser :: "(nat, nat) Parser" where
  "flagFirstParser =
     NewCommand ''run'' []
       (StringArg ''o'' ''output'' None
          (BoolArg ''v'' ''verbose'' (Some (emptyArgument\<lparr>DefaultVal := Some (VBool True)\<rparr>))
             (NewParser ''app'' [])))"

text \<open>A flag \<open>--verbose\<close> registered with \<open>Bool\<close> and a positional argument of the same name.\<close>

definition verboseClashParser :: "(nat, nat) Parser" where
  "verboseClashParser =
     Positional ''verbose'' None (BoolArg ''v'' ''verbose'' None (NewParser ''app'' []))"

section \<open>Facts about the walk\<close>

subsection \<open>A walk only sets marks and flags, and writes under the names it marks\<close>

lemma marked_refl: "marked a a" by (simp add: marked_def)

lemma marked_trans: "marked a b \<Longrightarrow> marked b c \<Longrightarrow> marked a c"
  by (auto simp: marked_def)

lemma marked_Name: "marked a b \<Longrightarrow> Name b = Name a"
  by (auto simp: marked_def)

lemma marked_ShortName: "marked a b \<Longrightarrow> ShortName b = ShortName a"
  by (auto simp: marked_def)

lemma marked_isSet: "marked a b \<Longrightarrow> isSet a \<Longrightarrow> isSet b"
  by (auto simp: marked_def)

lemma all2_marked_refl: "list_all2 marked as as"
  by (simp add: list_all2_refl marked_refl)

lemma all2_marked_trans:
  "list_all2 marked as bs \<Longrightarrow> list_all2 marked bs cs \<Longrightarrow> list_all2 marked as cs"
  by (rule list_all2_trans[of marked marked marked]) (auto intro: marked_trans)

lemma all2_marked_names: "list_all2 marked as bs \<Longrightarrow> map Name bs = map Name as"
  by (induction rule: list_all2_induct) (auto dest: marked_Name)

lemma all2_marked_shorts: "list_all2 marked as bs \<Longrightarrow> map ShortName bs = map ShortName as"
  by (induction rule: list_all2_induct) (auto dest: marked_ShortName)

lemma all2_marked_set:
  "list_all2 marked as bs \<Longrightarrow> a \<in> set as \<Longrightarrow> isSet a \<Longrightarrow> \<exists>b \<in> set bs. Name b = Name a \<and> isSet b"
  by (induction rule: list_all2_induct) (auto dest: marked_Name marked_isSet)

lemma wrote_mono:
  assumes "list_all2 marked (optionS st) (optionS st')"
    and "list_all2 marked (positionalS st) (positionalS st')"
    and "hasHelpFlag st \<longrightarrow> hasHelpFlag st'"
    and "hasVersionFlag st \<longrightarrow> hasVersionFlag st'"
    and "wrote st k"
  shows "wrote st' k"
proof -
  from assms(5) consider (d) a where "a \<in> set (optionS st @ positionalS st)" "isSet a" "Name a = k"
    | (h) "hasHelpFlag st" "k = ''help''" | (v) "hasVersionFlag st" "k = ''version''"
    unfolding wrote_def by blast
  then show ?thesis
  proof cases
    case d
    then have "\<exists>b \<in> set (optionS st' @ positionalS st'). Name b = Name a \<and> isSet b"
      using all2_marked_set[OF assms(1)] all2_marked_set[OF assms(2)] by auto
    with d show ?thesis unfolding wrote_def by blast
  next
    case h with assms(3) show ?thesis by (simp add: wrote_def)
  next
    case v with assms(4) show ?thesis by (simp add: wrote_def)
  qed
qed

lemma extends_refl: "extends st st"
  by (simp add: extends_def all2_marked_refl)

lemma extends_trans:
  assumes "extends a b" and "extends b c"
  shows "extends a c"
proof -
  have w: "wrote b k \<Longrightarrow> wrote c k" for k
    using assms(2) by (intro wrote_mono[of b c]) (auto simp: extends_def)
  have r: "\<not> wrote c k \<Longrightarrow> result c k = result a k" for k
    using assms w[of k] unfolding extends_def by metis
  show ?thesis
    using assms r unfolding extends_def
    by (auto intro: all2_marked_trans)
qed

lemma extends_help: "extends s1 s2 \<Longrightarrow> hasHelpFlag s1 \<Longrightarrow> hasHelpFlag s2"
  by (simp add: extends_def)

lemma extends_version: "extends s1 s2 \<Longrightarrow> hasVersionFlag s1 \<Longrightarrow> hasVersionFlag s2"
  by (simp add: extends_def)

lemma markFirst_marked: "list_all2 marked as (markFirst P as)"
proof (induction as)
  case Nil then show ?case by simp
next
  case (Cons a as)
  have "marked a (a\<lparr>isSet := True\<rparr>)" by (simp add: marked_def)
  then show ?case using Cons all2_marked_refl[of as] by (simp add: marked_refl)
qed

lemma markFirst_find:
  "find P as = Some a \<Longrightarrow> a\<lparr>isSet := True\<rparr> \<in> set (markFirst P as)"
  by (induction as) (auto split: if_splits)

lemma store_extends:
  assumes "find P (optionS st) = Some a"
  shows "extends st (store P (Name a) v st)"
proof -
  have "a\<lparr>isSet := True\<rparr> \<in> set (optionS (store P (Name a) v st))"
    using markFirst_find[OF assms] by (simp add: store_def)
  then have "\<exists>b \<in> set (optionS (store P (Name a) v st)). Name b = Name a \<and> isSet b"
    by (intro bexI[of _ "a\<lparr>isSet := True\<rparr>"]) simp_all
  then have "wrote (store P (Name a) v st) (Name a)"
    unfolding wrote_def by auto
  then show ?thesis
    by (auto simp: extends_def store_def markFirst_marked all2_marked_refl)
qed

lemma noteFlags_extends: "extends st (noteFlags n h v st)"
  by (auto simp: extends_def noteFlags_def all2_marked_refl wrote_def)

lemma noteFlags_optionS [simp]: "optionS (noteFlags n h v st) = optionS st"
  by (simp add: noteFlags_def)

lemma takeNext_extends:
  assumes "find P (optionS st) = Some a" and "takeNext L P a shown rest st = Inr (st', k)"
  shows "extends st st'"
  using assms store_extends[OF assms(1)]
  by (auto simp: takeNext_def split: list.splits if_splits sum.splits)

lemma longOption_noted:
  assumes "longOption L arg rest st = Inr (st', k)"
  shows "extends (noteFlags (takeWhile (\<lambda>c. c \<noteq> CHR ''='') (drop 2 arg)) ''help'' ''version'' st) st'"
proof -
  let ?n = "takeWhile (\<lambda>c. c \<noteq> CHR ''='') (drop 2 arg)"
  let ?st = "noteFlags ?n ''help'' ''version'' st"
  let ?P = "\<lambda>a. Name a = ?n"
  from assms obtain a where f: "find ?P (optionS ?st) = Some a"
    by (auto simp: longOption_def Let_def split: option.splits)
  show "extends ?st st'"
    using assms f store_extends[OF f] takeNext_extends[OF f]
    by (auto simp: longOption_def Let_def split: ArgumentType.splits if_splits sum.splits)
qed

lemma longOption_extends:
  assumes "longOption L arg rest st = Inr (st', k)"
  shows "extends st st'"
proof -
  let ?n = "takeWhile (\<lambda>c. c \<noteq> CHR ''='') (drop 2 arg)"
  let ?st = "noteFlags ?n ''help'' ''version'' st"
  let ?P = "\<lambda>a. Name a = ?n"
  from assms obtain a where f: "find ?P (optionS ?st) = Some a"
    by (auto simp: longOption_def Let_def split: option.splits)
  have "extends ?st st'"
    using assms f store_extends[OF f] takeNext_extends[OF f]
    by (auto simp: longOption_def Let_def split: ArgumentType.splits if_splits sum.splits)
  then show ?thesis using noteFlags_extends extends_trans by blast
qed

lemma longOption_found:
  "longOption L arg rest st = Inr (st', k) \<Longrightarrow>
     find (\<lambda>a. Name a = takeWhile (\<lambda>c. c \<noteq> CHR ''='') (drop 2 arg)) (optionS st) \<noteq> None"
  by (auto simp: longOption_def Let_def split: option.splits)

lemma leadInfo_ascii: "(of_char c :: nat) < 128 \<Longrightarrow> leadInfo c = None"
  by (simp add: leadInfo_def)

lemma runeText_ascii: "(of_char c :: nat) < 128 \<Longrightarrow> runeText (c # cs) = [c]"
  by (simp add: runeText_def runeWidth_def validRune_def leadInfo_ascii)

lemma runeText_h: "runeText ''h'' = ''h''"
  by (simp add: runeText_ascii)

lemma runeText_V: "runeText ''V'' = ''V''"
  by (simp add: runeText_ascii)

lemma cluster_extends:
  "cluster L cs rest st = Inr (st', k) \<Longrightarrow> extends st st'"
proof (induction L cs rest st arbitrary: st' k rule: cluster.induct)
  case (1 L rest st)
  then show ?case by (simp add: extends_refl)
next
  case (2 L c cs rest st)
  let ?P = "\<lambda>a. ShortName a = runeText (c # cs)"
  from "2.prems" obtain a where f: "find ?P (optionS st) = Some a"
    by (auto split: option.splits)
  show ?case
  proof (cases "ArgType a = BoolType \<or> ArgType a = CounterType")
    case True
    then show ?thesis
      using "2.prems" f store_extends[OF f]
      by (auto simp: Let_def extends_refl split: if_splits)
  next
    case False
    show ?thesis
    proof (cases "cs = []")
      case True
      then show ?thesis
        using "2.prems" f False takeNext_extends[OF f]
        by (cases "ArgType a") auto
    next
      case ne: False
      from "2.prems" f False ne obtain x where
        x: "parseValue L (ArgType a) cs = Inr x"
        and c: "cluster L (drop (runeWidth (c # cs) - 1) cs) rest (store ?P (Name a) x st) = Inr (st', k)"
        by (cases "ArgType a") (auto split: sum.splits)
      have "extends (store ?P (Name a) x st) st'"
        using "2.IH"(3)[OF f _ ne x c] "2.IH" f False ne x c
        by (cases "ArgType a") auto
      then show ?thesis using store_extends[OF f] extends_trans by blast
    qed
  qed
qed

lemma cluster_found:
  "cluster L (c # cs) rest st = Inr (st', k) \<Longrightarrow> find (\<lambda>a. ShortName a = runeText (c # cs)) (optionS st) \<noteq> None"
  by (auto split: option.splits)

lemma positionalArg_extends:
  assumes "positionalArg L arg st = Inr (st', k)"
  shows "extends st st'"
proof -
  let ?i = "positionalIndex st"
  let ?pos = "positionalS st ! ?i"
  from assms have i: "?i < length (positionalS st)"
    by (auto simp: positionalArg_def split: if_splits)
  from assms i obtain v where
    st': "st' = st\<lparr>result := (result st)(Name ?pos \<mapsto> v),
                   positionalS := (positionalS st)[?i := ?pos\<lparr>isSet := True\<rparr>],
                   positionalIndex := ?i + 1\<rparr>"
    by (auto simp: positionalArg_def Let_def split: sum.splits)
  have m: "list_all2 marked (positionalS st) (positionalS st')"
    unfolding st' using i
    by (auto simp: list_all2_conv_all_nth nth_list_update marked_def)
  have "?pos\<lparr>isSet := True\<rparr> \<in> set (positionalS st')"
    unfolding st' using i by (simp add: set_update_memI)
  then have "\<exists>b \<in> set (optionS st' @ positionalS st'). Name b = Name ?pos \<and> isSet b"
    by (intro bexI[of _ "?pos\<lparr>isSet := True\<rparr>"]) simp_all
  then have w: "wrote st' (Name ?pos)" unfolding wrote_def by blast
  have r: "\<not> wrote st' k \<Longrightarrow> result st' k = result st k" for k
    using w by (auto simp: st')
  show ?thesis
    unfolding extends_def using m r by (simp add: st' all2_marked_refl)
qed

lemma shortOption_extends:
  "shortOption L arg rest st = Inr (st', k) \<Longrightarrow> extends st st'"
  unfolding shortOption_def
  using cluster_extends noteFlags_extends extends_trans by blast

lemma step_extends: "step L arg rest st = Inr (st', k) \<Longrightarrow> extends st st'"
  by (auto simp: step_def split: if_splits
      dest: longOption_extends shortOption_extends positionalArg_extends)

lemma walk_extends: "walk L ts st = Inr st' \<Longrightarrow> extends st st'"
proof (induction L ts st rule: walk.induct)
  case (1 L st)
  then show ?case by (simp add: extends_refl)
next
  case (2 L arg rest st)
  from "2.prems" obtain st1 k where
    s: "step L arg rest st = Inr (st1, k)" and w: "walk L (drop k rest) st1 = Inr st'"
    by (auto split: sum.splits)
  from "2.IH"[OF s refl w] step_extends[OF s] show ?case
    by (rule extends_trans[rotated])
qed


subsection \<open>The look-ahead of one token\<close>

lemma takeNext_shape:
  "takeNext L P a shown rest st = Inr (st', k) \<Longrightarrow>
     k = 1 \<and> (\<exists>nxt rest'. rest = nxt # rest' \<and> \<not> HasPrefix nxt ''-'')"
  by (auto simp: takeNext_def split: list.splits if_splits sum.splits)

lemma takeNext_append:
  "takeNext L P a shown rest st = Inr (st', k) \<Longrightarrow>
     takeNext L P a shown (rest @ xs) st = Inr (st', k)"
  by (auto simp: takeNext_def split: list.splits if_splits sum.splits)

lemma cluster_shape:
  "cluster L cs rest st = Inr (st', k) \<Longrightarrow>
     k = 0 \<or> (k = 1 \<and> (\<exists>nxt rest'. rest = nxt # rest' \<and> \<not> HasPrefix nxt ''-''))"
proof (induction L cs rest st arbitrary: st' k rule: cluster.induct)
  case (1 L rest st)
  then show ?case by simp
next
  case (2 L c cs rest st)
  from "2.prems" obtain a where f: "find (\<lambda>a. ShortName a = runeText (c # cs)) (optionS st) = Some a"
    by (auto split: option.splits)
  show ?case
    using "2.prems" "2.IH" f
    by (cases "ArgType a") (auto simp: Let_def split: if_splits sum.splits dest: takeNext_shape)
qed

lemma cluster_append:
  "cluster L cs rest st = Inr (st', k) \<Longrightarrow> cluster L cs (rest @ xs) st = Inr (st', k)"
proof (induction L cs rest st arbitrary: st' k rule: cluster.induct)
  case (1 L rest st)
  then show ?case by simp
next
  case (2 L c cs rest st)
  from "2.prems" obtain a where f: "find (\<lambda>a. ShortName a = runeText (c # cs)) (optionS st) = Some a"
    by (auto split: option.splits)
  show ?case
    using "2.prems" "2.IH" f
    by (cases "ArgType a") (auto simp: Let_def split: if_splits sum.splits dest: takeNext_append)
qed

lemma longOption_takeNext:
  assumes "find (\<lambda>a. Name a = takeWhile (\<lambda>c. c \<noteq> CHR ''='') (drop 2 arg))
             (optionS st) = Some a"
    and "ArgType a \<noteq> BoolType" and "ArgType a \<noteq> CounterType"
    and "CHR ''='' \<notin> set (drop 2 arg)"
  shows "longOption L arg rest st =
           takeNext L (\<lambda>a. Name a = takeWhile (\<lambda>c. c \<noteq> CHR ''='') (drop 2 arg)) a
             (''--'' @ takeWhile (\<lambda>c. c \<noteq> CHR ''='') (drop 2 arg)) rest
             (noteFlags (takeWhile (\<lambda>c. c \<noteq> CHR ''='') (drop 2 arg)) ''help'' ''version'' st)"
  using assms by (cases "ArgType a") (simp_all add: longOption_def Let_def)

lemma longOption_no_lookahead:
  assumes "find (\<lambda>a. Name a = takeWhile (\<lambda>c. c \<noteq> CHR ''='') (drop 2 arg))
             (optionS st) = Some a"
    and "ArgType a = BoolType \<or> ArgType a = CounterType \<or> CHR ''='' \<in> set (drop 2 arg)"
  shows "longOption L arg rest st = longOption L arg rest' st"
  using assms by (cases "ArgType a") (auto simp: longOption_def Let_def)

lemma longOption_append:
  assumes "longOption L arg rest st = Inr (st', k)"
  shows "longOption L arg (rest @ xs) st = Inr (st', k)"
proof -
  let ?n = "takeWhile (\<lambda>c. c \<noteq> CHR ''='') (drop 2 arg)"
  from assms obtain a where f: "find (\<lambda>a. Name a = ?n) (optionS st) = Some a"
    by (auto simp: longOption_def Let_def split: option.splits)
  show ?thesis
  proof (cases "ArgType a = BoolType \<or> ArgType a = CounterType \<or> CHR ''='' \<in> set (drop 2 arg)")
    case True
    from longOption_no_lookahead[OF f True] assms show ?thesis by metis
  next
    case False
    then show ?thesis
      using assms longOption_takeNext[OF f] takeNext_append by auto
  qed
qed

lemma longOption_shape:
  assumes "longOption L arg rest st = Inr (st', k)"
  shows "k = 0 \<or> (k = 1 \<and> (\<exists>nxt rest'. rest = nxt # rest' \<and> \<not> HasPrefix nxt ''-''))"
proof -
  let ?n = "takeWhile (\<lambda>c. c \<noteq> CHR ''='') (drop 2 arg)"
  from assms obtain a where f: "find (\<lambda>a. Name a = ?n) (optionS st) = Some a"
    by (auto simp: longOption_def Let_def split: option.splits)
  show ?thesis
  proof (cases "ArgType a = BoolType \<or> ArgType a = CounterType \<or> CHR ''='' \<in> set (drop 2 arg)")
    case True
    then have "k = 0"
      using assms f by (cases "ArgType a") (auto simp: longOption_def Let_def split: sum.splits)
    then show ?thesis by simp
  next
    case False
    then show ?thesis
      using assms longOption_takeNext[OF f] takeNext_shape by metis
  qed
qed

lemma step_shape:
  "step L arg rest st = Inr (st', k) \<Longrightarrow>
     k = 0 \<or> (k = 1 \<and> (\<exists>nxt rest'. rest = nxt # rest' \<and> \<not> HasPrefix nxt ''-''))"
  by (auto simp: step_def shortOption_def positionalArg_def Let_def
      split: if_splits sum.splits dest: longOption_shape cluster_shape)

lemma step_append:
  "step L arg rest st = Inr (st', k) \<Longrightarrow> step L arg (rest @ xs) st = Inr (st', k)"
  by (auto simp: step_def shortOption_def positionalArg_def
      split: if_splits dest: longOption_append cluster_append)

lemma walk_append:
  "walk L pre st = Inr st1 \<Longrightarrow> walk L (pre @ xs) st = walk L xs st1"
proof (induction L pre st rule: walk.induct)
  case (1 L st)
  then show ?case by simp
next
  case (2 L arg rest st)
  from "2.prems" obtain st' k where
    s: "step L arg rest st = Inr (st', k)" and w: "walk L (drop k rest) st' = Inr st1"
    by (auto split: sum.splits)
  from step_shape[OF s] have k: "k \<le> length rest" by auto
  have "walk L (drop k rest @ xs) st' = walk L xs st1"
    by (rule "2.IH"[OF s refl w])
  then show ?case using step_append[OF s, of xs] k by simp
qed

lemma step_dash: "step L ''-'' rest st = Inr (st, 0)"
  by (simp add: step_def HasPrefix_def shortOption_def noteFlags_def)

lemma walk_dash: "walk L (''-'' # rest) st = walk L rest st"
  by (simp add: step_dash)

lemma walk_skip_dash:
  assumes "\<not> isl (walk L pre st)"
  shows "walk L (pre @ ''-'' # post) st = walk L (pre @ post) st"
proof -
  from assms obtain st1 where w: "walk L pre st = Inr st1"
    by (cases "walk L pre st") auto
  have "walk L (pre @ ''-'' # post) st = walk L (''-'' # post) st1"
    by (rule walk_append[OF w])
  also have "\<dots> = walk L post st1" by (rule walk_dash)
  also have "\<dots> = walk L (pre @ post) st" by (rule walk_append[OF w, symmetric])
  finally show ?thesis .
qed

subsection \<open>Parse with and without a subcommand\<close>

lemma Parse_own: "\<not> delegates p ts \<Longrightarrow> Parse L p ts = parseOwn L p ts"
  by (cases ts) (auto simp: delegates_def)

lemma delegates_append: "pre \<noteq> [] \<Longrightarrow> delegates p (pre @ xs) = delegates p pre"
  by (cases pre) (simp_all add: delegates_def)

lemma Parse_delegated:
  assumes "subparsers p \<noteq> []" and "map_of (subparsers p) arg = Some sub"
  shows "Parse L p (arg # rest) =
           (case Parse L sub rest of
              Ok subResult \<Rightarrow> Ok ((seed p)(''subcommand'' \<mapsto> VString arg) ++ subResult)
            | Err e \<Rightarrow> Err e
            | ExitHelp \<Rightarrow> ExitHelp
            | ExitVersion \<Rightarrow> ExitVersion)"
  using assms by simp

lemma delegated_entry:
  assumes "subparsers p \<noteq> []" and "map_of (subparsers p) arg = Some sub"
    and "isOk (Parse L p (arg # rest))"
    and "k \<noteq> ''subcommand''" and "entry (Parse L sub rest) k = None"
  shows "entry (Parse L p (arg # rest)) k = seed p k"
  using assms(3-) unfolding Parse_delegated[OF assms(1,2)]
  by (cases "Parse L sub rest") (auto simp: isOk_def entry_def map_add_def)

lemma failure_Some: "failure out = Some e \<Longrightarrow> out = Err e"
  by (cases out) (simp_all add: failure_def)

lemma own_outcomes:
  "isErr (parseOwn L p ts)
   \<or> (\<exists>st. walk L ts (initState p) = Inr st
          \<and> parseOwn L p ts =
               (if hasHelpFlag st then ExitHelp
                else if hasVersionFlag st then ExitVersion else checkRequired st))"
  by (cases "walk L ts (initState p)") (simp_all add: parseOwn_def isErr_def)

lemma own_Ok:
  assumes "isOk (parseOwn L p ts)"
  obtains st where "walk L ts (initState p) = Inr st" "\<not> hasHelpFlag st" "\<not> hasVersionFlag st"
    "find missing (optionS st) = None" "find missing (positionalS st) = None"
    "parseOwn L p ts = Ok (result st)"
proof -
  from assms obtain st where w: "walk L ts (initState p) = Inr st"
    by (cases "walk L ts (initState p)") (auto simp: parseOwn_def isOk_def)
  from assms w have f: "\<not> hasHelpFlag st" "\<not> hasVersionFlag st"
    by (auto simp: parseOwn_def isOk_def split: if_splits)
  from assms w f have c: "isOk (checkRequired st)" by (simp add: parseOwn_def)
  then have "find missing (optionS st) = None" "find missing (positionalS st) = None"
    by (auto simp: checkRequired_def isOk_def split: option.splits)
  moreover from this have "checkRequired st = Ok (result st)" by (simp add: checkRequired_def)
  ultimately show ?thesis using that w f by (simp add: parseOwn_def)
qed

subsection \<open>Help and version tokens\<close>

lemma find_None_map:
  "map f bs = map f as \<Longrightarrow> find (\<lambda>a. f a = x) as = None \<Longrightarrow> find (\<lambda>a. f a = x) bs = None"
proof -
  assume m: "map f bs = map f as" and n: "find (\<lambda>a. f a = x) as = None"
  from n have "x \<notin> set (map f as)" by (auto simp: find_None_iff)
  with m have "x \<notin> set (map f bs)" by simp
  then show ?thesis by (auto simp: find_None_iff)
qed

lemma walk_reaches:
  assumes "walk L ts st = Inr st'" and "t \<in> set ts" and "HasPrefix t ''-''"
  shows "\<exists>st1 st2 rest k. extends st st1 \<and> step L t rest st1 = Inr (st2, k) \<and> extends st2 st'"
  using assms
proof (induction L ts st rule: walk.induct)
  case (1 L st)
  then show ?case by simp
next
  case (2 L arg rest st)
  from "2.prems"(1) obtain sa k where
    s: "step L arg rest st = Inr (sa, k)" and w: "walk L (drop k rest) sa = Inr st'"
    by (auto split: sum.splits)
  show ?case
  proof (cases "t = arg")
    case True
    then show ?thesis using s walk_extends[OF w] extends_refl by blast
  next
    case False
    with "2.prems"(2) have tr: "t \<in> set rest" by simp
    have "t \<in> set (drop k rest)"
      using step_shape[OF s] tr "2.prems"(3) by auto
    from "2.IH"[OF s refl w this "2.prems"(3)] obtain st1 st2 r j where
      "extends sa st1" "step L t r st1 = Inr (st2, j)" "extends st2 st'" by blast
    with step_extends[OF s] show ?thesis using extends_trans by blast
  qed
qed

lemma step_h:
  assumes "step L ''-h'' rest st = Inr (st', k)"
  shows "hasHelpFlag st' \<and> find (\<lambda>a. ShortName a = ''h'') (optionS st) \<noteq> None"
proof -
  from assms have c: "cluster L ''h'' rest (noteFlags ''h'' ''h'' ''V'' st) = Inr (st', k)"
    by (simp add: step_def HasPrefix_def shortOption_def)
  from cluster_extends[OF c] have "hasHelpFlag st'" by (simp add: extends_def noteFlags_def)
  then show ?thesis using cluster_found[OF c] by (simp add: runeText_h runeText_V)
qed

lemma step_V:
  assumes "step L ''-V'' rest st = Inr (st', k)"
  shows "hasVersionFlag st' \<and> find (\<lambda>a. ShortName a = ''V'') (optionS st) \<noteq> None"
proof -
  from assms have c: "cluster L ''V'' rest (noteFlags ''V'' ''h'' ''V'' st) = Inr (st', k)"
    by (simp add: step_def HasPrefix_def shortOption_def)
  from cluster_extends[OF c] have "hasVersionFlag st'" by (simp add: extends_def noteFlags_def)
  then show ?thesis using cluster_found[OF c] by (simp add: runeText_h runeText_V)
qed

lemma walk_token:
  assumes w: "walk L ts st = Inr st'" and t: "t \<in> set ts" and d: "HasPrefix t ''-''"
    and s: "\<And>rest s1 s2 k. step L t rest s1 = Inr (s2, k) \<Longrightarrow> flag s2 \<and> find (\<lambda>a. f a = x) (optionS s1) \<noteq> None"
    and m: "\<And>s1 s2. extends s1 s2 \<Longrightarrow> flag s1 \<Longrightarrow> flag s2"
    and n: "\<And>as bs. list_all2 marked as bs \<Longrightarrow> map f bs = map f as"
  shows "flag st' \<and> find (\<lambda>a. f a = x) (optionS st) \<noteq> None"
proof -
  from walk_reaches[OF w t d] obtain st1 st2 rest k where
    e1: "extends st st1" and st: "step L t rest st1 = Inr (st2, k)" and e2: "extends st2 st'"
    by blast
  from s[OF st] have f2: "flag st2" and fd: "find (\<lambda>a. f a = x) (optionS st1) \<noteq> None" by auto
  have eq: "map f (optionS st1) = map f (optionS st)"
    using e1 n by (simp add: extends_def)
  have "find (\<lambda>a. f a = x) (optionS st) \<noteq> None"
  proof
    assume "find (\<lambda>a. f a = x) (optionS st) = None"
    from find_None_map[OF eq this] fd show False by simp
  qed
  with m[OF e2 f2] show ?thesis by simp
qed

lemma own_h:
  assumes "''-h'' \<in> set ts"
  shows "isErr (parseOwn L p ts)
         \<or> (parseOwn L p ts = ExitHelp \<and> find (\<lambda>a. ShortName a = ''h'') (args p) \<noteq> None)"
proof -
  from own_outcomes[of L p ts] show ?thesis
  proof
    assume "isErr (parseOwn L p ts)" then show ?thesis ..
  next
    assume "\<exists>st. walk L ts (initState p) = Inr st
          \<and> parseOwn L p ts =
               (if hasHelpFlag st then ExitHelp
                else if hasVersionFlag st then ExitVersion else checkRequired st)"
    then obtain st where w: "walk L ts (initState p) = Inr st"
      and o: "parseOwn L p ts = (if hasHelpFlag st then ExitHelp
                else if hasVersionFlag st then ExitVersion else checkRequired st)" by blast
    have "hasHelpFlag st \<and> find (\<lambda>a. ShortName a = ''h'') (optionS (initState p)) \<noteq> None"
      by (rule walk_token[OF w assms _ step_h extends_help all2_marked_shorts])
         (simp_all add: HasPrefix_def)
    then show ?thesis using o by (simp add: initState_def)
  qed
qed

lemma own_V:
  assumes "''-V'' \<in> set ts"
  shows "isErr (parseOwn L p ts)
         \<or> ((parseOwn L p ts = ExitHelp \<or> parseOwn L p ts = ExitVersion)
              \<and> find (\<lambda>a. ShortName a = ''V'') (args p) \<noteq> None)"
proof -
  from own_outcomes[of L p ts] show ?thesis
  proof
    assume "isErr (parseOwn L p ts)" then show ?thesis ..
  next
    assume "\<exists>st. walk L ts (initState p) = Inr st
          \<and> parseOwn L p ts =
               (if hasHelpFlag st then ExitHelp
                else if hasVersionFlag st then ExitVersion else checkRequired st)"
    then obtain st where w: "walk L ts (initState p) = Inr st"
      and o: "parseOwn L p ts = (if hasHelpFlag st then ExitHelp
                else if hasVersionFlag st then ExitVersion else checkRequired st)" by blast
    have "hasVersionFlag st \<and> find (\<lambda>a. ShortName a = ''V'') (optionS (initState p)) \<noteq> None"
      by (rule walk_token[OF w assms _ step_V extends_version all2_marked_shorts])
         (simp_all add: HasPrefix_def)
    then show ?thesis using o by (simp add: initState_def)
  qed
qed

lemma own_first_long:
  "find (\<lambda>a. Name a = n) (args p) = None \<Longrightarrow> CHR ''='' \<notin> set n \<Longrightarrow>
     parseOwn L p ((''--'' @ n) # rest) = Err (UnknownArgument (''--'' @ n))"
proof -
  assume f: "find (\<lambda>a. Name a = n) (args p) = None" and e: "CHR ''='' \<notin> set n"
  from e have tw: "takeWhile (\<lambda>c. c \<noteq> CHR ''='') n = n"
    by (auto simp: takeWhile_eq_all_conv)
  show ?thesis
    using f by (simp add: parseOwn_def step_def HasPrefix_def longOption_def initState_def Let_def tw)
qed

lemma own_first_short:
  "find (\<lambda>a. ShortName a = [c]) (args p) = None \<Longrightarrow> (of_char c :: nat) < 128 \<Longrightarrow>
     c \<noteq> CHR ''-'' \<Longrightarrow>
     parseOwn L p ([CHR ''-'', c] # rest) = Err (UnknownArgument [CHR ''-'', c])"
  by (simp add: parseOwn_def step_def HasPrefix_def shortOption_def initState_def runeText_ascii)

subsection \<open>Defaults and required definitions\<close>

lemma addDefaults_snoc:
  "addDefaults (as @ [a]) r =
     (case DefaultVal a of None \<Rightarrow> addDefaults as r | Some d \<Rightarrow> (addDefaults as r)(Name a \<mapsto> d))"
  by (simp add: addDefaults_def split: option.splits)

lemma addDefaults_other: "k \<notin> set (map Name as) \<Longrightarrow> addDefaults as r k = r k"
proof (induction as rule: rev_induct)
  case Nil
  then show ?case by (simp add: addDefaults_def)
next
  case (snoc a as)
  then show ?case by (simp add: addDefaults_snoc split: option.splits)
qed

lemma addDefaults_distinct:
  "distinct (map Name as) \<Longrightarrow> a \<in> set as \<Longrightarrow> DefaultVal a = Some d \<Longrightarrow>
     addDefaults as r (Name a) = Some d"
proof (induction as rule: rev_induct)
  case Nil
  then show ?case by simp
next
  case (snoc b as)
  show ?case
  proof (cases "a = b")
    case True
    with snoc.prems show ?thesis by (simp add: addDefaults_snoc)
  next
    case False
    with snoc.prems have m: "a \<in> set as" by simp
    from snoc.prems(1) have "Name b \<notin> Name ` set as" by simp
    with m have n: "Name a \<noteq> Name b" by (metis imageI)
    from snoc.IH[OF _ m snoc.prems(3)] snoc.prems(1) n show ?thesis
      by (simp add: addDefaults_snoc split: option.splits)
  qed
qed

lemma seed_default:
  assumes "distinct (map Name (args p @ positional p))"
    and "a \<in> set (args p @ positional p)" and "DefaultVal a = Some d"
  shows "seed p (Name a) = Some d"
proof (cases "a \<in> set (positional p)")
  case True
  with assms show ?thesis by (simp add: seed_def addDefaults_distinct)
next
  case False
  with assms(2) have m: "a \<in> set (args p)" by simp
  with assms(1) have "Name a \<notin> set (map Name (positional p))" by auto
  then have "seed p (Name a) = addDefaults (args p) Map.empty (Name a)"
    by (simp add: seed_def addDefaults_other)
  with assms m show ?thesis by (simp add: addDefaults_distinct)
qed


lemma args_BoolArg:
  "args (BoolArg s l options p) =
     args p @ [(orEmpty options)\<lparr>ArgType := BoolType, DefaultVal := Some (VBool False),
                                 ShortName := s, Name := l, isPositional := False\<rparr>]"
  by (simp add: BoolArg_def Flag_def setArgs_def orEmpty_def)

subsection \<open>The flags follow the help and version tokens\<close>

lemma store_flags [simp]:
  "hasHelpFlag (store P n v st) = hasHelpFlag st"
  "hasVersionFlag (store P n v st) = hasVersionFlag st"
  by (simp_all add: store_def)

lemma store_positional [simp]:
  "positionalS (store P n v st) = positionalS st"
  "positionalIndex (store P n v st) = positionalIndex st"
  by (simp_all add: store_def)

lemma noteFlags_positional [simp]:
  "positionalS (noteFlags n h v st) = positionalS st"
  "positionalIndex (noteFlags n h v st) = positionalIndex st"
  by (simp_all add: noteFlags_def)

lemma takeNext_store:
  "takeNext L P a shown rest st = Inr (st', k) \<Longrightarrow> \<exists>v. st' = store P (Name a) v st"
  by (auto simp: takeNext_def split: list.splits if_splits sum.splits)

lemma HasPrefix_dash2: "HasPrefix t ''--'' \<Longrightarrow> HasPrefix t ''-''"
  by (cases t) (auto simp: HasPrefix_def split: if_splits)

lemma HasPrefix_dash_drop: "HasPrefix t ''-'' \<Longrightarrow> t = CHR ''-'' # drop 1 t"
  by (cases t) (auto simp: HasPrefix_def)

lemma helpToken_dash: "isHelpToken t \<Longrightarrow> HasPrefix t ''-''"
proof (cases "HasPrefix t ''--''")
  case True
  then show ?thesis by (rule HasPrefix_dash2)
next
  case False
  assume "isHelpToken t"
  with False have "t = ''-h''" by (simp add: isHelpToken_def)
  then show ?thesis by (simp add: HasPrefix_def)
qed

lemma versionToken_dash: "isVersionToken t \<Longrightarrow> HasPrefix t ''-''"
proof (cases "HasPrefix t ''--''")
  case True
  then show ?thesis by (rule HasPrefix_dash2)
next
  case False
  assume "isVersionToken t"
  with False have "t = ''-V''" by (simp add: isVersionToken_def)
  then show ?thesis by (simp add: HasPrefix_def)
qed

text \<open>A cluster changes the state by stores only.\<close>

lemma cluster_stores:
  assumes "cluster L s rest st = Inr (st', k)" and "Q st"
    and "\<And>P n v s. Q s \<Longrightarrow> Q (store P n v s)"
  shows "Q st'"
  using assms(1,2)
proof (induction L s rest st arbitrary: st' k rule: cluster.induct)
  case (1 L rest st)
  then show ?case by simp
next
  case (2 L c cs rest st)
  from "2.prems"(1) obtain a where
    f: "find (\<lambda>a. ShortName a = runeText (c # cs)) (optionS st) = Some a"
    by (auto split: option.splits)
  show ?case
  proof (cases "ArgType a = BoolType \<or> ArgType a = CounterType")
    case True
    then show ?thesis
      using "2.prems" f assms(3) by (auto simp: Let_def split: if_splits)
  next
    case False
    show ?thesis
    proof (cases "cs = []")
      case True
      with "2.prems"(1) f False have
        "takeNext L (\<lambda>a. ShortName a = runeText (c # cs)) a (CHR ''-'' # runeText (c # cs)) rest st
           = Inr (st', k)"
        by (cases "ArgType a") auto
      from takeNext_store[OF this] "2.prems"(2) assms(3) show ?thesis by auto
    next
      case ne: False
      from "2.prems"(1) f False ne obtain x where
        x: "parseValue L (ArgType a) cs = Inr x"
        and c: "cluster L (drop (runeWidth (c # cs) - 1) cs) rest
                  (store (\<lambda>a. ShortName a = runeText (c # cs)) (Name a) x st) = Inr (st', k)"
        by (cases "ArgType a") (auto split: sum.splits)
      have q: "Q (store (\<lambda>a. ShortName a = runeText (c # cs)) (Name a) x st)"
        by (rule assms(3)[OF "2.prems"(2)])
      show ?thesis
        using "2.IH"(3)[OF f _ ne x c q] "2.IH" f False ne x c q
        by (cases "ArgType a") auto
    qed
  qed
qed

lemma cluster_flags:
  assumes "cluster L s rest st = Inr (st', k)"
  shows "hasHelpFlag st' = hasHelpFlag st \<and> hasVersionFlag st' = hasVersionFlag st"
  by (rule cluster_stores[OF assms]) simp_all

lemma cluster_positional:
  assumes "cluster L s rest st = Inr (st', k)"
  shows "positionalS st' = positionalS st \<and> positionalIndex st' = positionalIndex st"
  by (rule cluster_stores[OF assms]) simp_all

lemma longOption_flags:
  assumes "longOption L arg rest st = Inr (st', k)"
  shows "hasHelpFlag st' = hasHelpFlag (noteFlags (longName arg) ''help'' ''version'' st)
       \<and> hasVersionFlag st' = hasVersionFlag (noteFlags (longName arg) ''help'' ''version'' st)"
proof -
  let ?n = "takeWhile (\<lambda>c. c \<noteq> CHR ''='') (drop 2 arg)"
  from assms obtain a where f: "find (\<lambda>a. Name a = ?n) (optionS st) = Some a"
    by (auto simp: longOption_def Let_def split: option.splits)
  show ?thesis
  proof (cases "ArgType a = BoolType \<or> ArgType a = CounterType \<or> CHR ''='' \<in> set (drop 2 arg)")
    case True
    then show ?thesis
      using assms f
      by (cases "ArgType a") (auto simp: longOption_def longName_def Let_def split: sum.splits)
  next
    case False
    with assms longOption_takeNext[OF f, of L rest] have
      "takeNext L (\<lambda>a. Name a = ?n) a (''--'' @ ?n) rest
         (noteFlags ?n ''help'' ''version'' st) = Inr (st', k)"
      by simp
    from takeNext_store[OF this] show ?thesis
      by (auto simp: longName_def)
  qed
qed

lemma positionalArg_flags:
  "positionalArg L arg st = Inr (st', k) \<Longrightarrow>
     hasHelpFlag st' = hasHelpFlag st \<and> hasVersionFlag st' = hasVersionFlag st"
  by (auto simp: positionalArg_def Let_def split: if_splits sum.splits)

lemma step_flags:
  assumes "step L arg rest st = Inr (st', k)"
  shows "hasHelpFlag st' = (hasHelpFlag st \<or> isHelpToken arg)
       \<and> hasVersionFlag st' = (hasVersionFlag st \<or> isVersionToken arg)"
proof (cases "HasPrefix arg ''-''")
  case False
  then have "\<not> isHelpToken arg" "\<not> isVersionToken arg"
    using helpToken_dash versionToken_dash by blast+
  moreover from assms False have "positionalArg L arg st = Inr (st', k)"
    by (simp add: step_def)
  from positionalArg_flags[OF this] have
    "hasHelpFlag st' = hasHelpFlag st" "hasVersionFlag st' = hasVersionFlag st" by simp_all
  ultimately show ?thesis by simp
next
  case True
  show ?thesis
  proof (cases "HasPrefix arg ''--''")
    case long: True
    with assms True have "longOption L arg rest st = Inr (st', k)" by (simp add: step_def)
    from longOption_flags[OF this] long show ?thesis
      by (auto simp: noteFlags_def isHelpToken_def isVersionToken_def)
  next
    case short: False
    with assms True have
      c: "cluster L (drop 1 arg) rest (noteFlags (drop 1 arg) ''h'' ''V'' st) = Inr (st', k)"
      by (simp add: step_def shortOption_def)
    from HasPrefix_dash_drop[OF True] have
      "(drop 1 arg = ''h'') = (arg = ''-h'')" "(drop 1 arg = ''V'') = (arg = ''-V'')"
      by (metis list.inject)+
    with cluster_flags[OF c] short show ?thesis
      by (auto simp: noteFlags_def isHelpToken_def isVersionToken_def)
  qed
qed

lemma list_ex_drop_dashless:
  assumes "\<And>t. P t \<Longrightarrow> HasPrefix t ''-''"
    and "k = 0 \<or> (k = 1 \<and> (\<exists>nxt rest'. rest = nxt # rest' \<and> \<not> HasPrefix nxt ''-''))"
  shows "list_ex P (drop k rest) = list_ex P rest"
  using assms by (auto simp: list_ex_iff)

lemma walk_flags:
  "walk L ts st = Inr st' \<Longrightarrow>
     hasHelpFlag st' = (hasHelpFlag st \<or> list_ex isHelpToken ts)
     \<and> hasVersionFlag st' = (hasVersionFlag st \<or> list_ex isVersionToken ts)"
proof (induction L ts st rule: walk.induct)
  case (1 L st)
  then show ?case by simp
next
  case (2 L arg rest st)
  from "2.prems" obtain st1 k where
    s: "step L arg rest st = Inr (st1, k)" and w: "walk L (drop k rest) st1 = Inr st'"
    by (auto split: sum.splits)
  have h: "list_ex isHelpToken (drop k rest) = list_ex isHelpToken rest"
    by (rule list_ex_drop_dashless[OF helpToken_dash step_shape[OF s]])
  have v: "list_ex isVersionToken (drop k rest) = list_ex isVersionToken rest"
    by (rule list_ex_drop_dashless[OF versionToken_dash step_shape[OF s]])
  from "2.IH"[OF s refl w] step_flags[OF s] h v show ?case by auto
qed

subsection \<open>A mark is set by a token that addresses the definition\<close>

lemma marked_addresses: "marked a b \<Longrightarrow> addresses b t = addresses a t"
  by (auto simp: marked_def addresses_def)

lemma marked_list_ex: "marked a b \<Longrightarrow> list_ex (addresses b) ts = list_ex (addresses a) ts"
  by (simp add: list_ex_iff marked_addresses)










lemma tails_drop: "set (tails (drop m s)) \<subseteq> set (tails s)"
proof (induction s arbitrary: m)
  case Nil
  then show ?case by simp
next
  case (Cons c cs)
  show ?case
  proof (cases m)
    case 0
    then show ?thesis by simp
  next
    case (Suc j)
    with Cons[of j] show ?thesis by auto
  qed
qed

lemma addresses_short:
  assumes "HasPrefix t ''-''" and "\<not> HasPrefix t ''--''"
    and "u \<in> set (tails (drop 1 t))" and "ShortName a = runeText u"
  shows "addresses a t"
  using assms by (auto simp: addresses_def list_ex_iff)






subsection \<open>The positional slots\<close>

lemma longOption_positional:
  assumes "longOption L arg rest st = Inr (st', k)"
  shows "positionalS st' = positionalS st \<and> positionalIndex st' = positionalIndex st"
proof -
  let ?n = "takeWhile (\<lambda>c. c \<noteq> CHR ''='') (drop 2 arg)"
  from assms obtain a where f: "find (\<lambda>a. Name a = ?n) (optionS st) = Some a"
    by (auto simp: longOption_def Let_def split: option.splits)
  show ?thesis
  proof (cases "ArgType a = BoolType \<or> ArgType a = CounterType \<or> CHR ''='' \<in> set (drop 2 arg)")
    case True
    then show ?thesis
      using assms f
      by (cases "ArgType a") (auto simp: longOption_def Let_def split: sum.splits)
  next
    case False
    with assms longOption_takeNext[OF f, of L rest] have
      "takeNext L (\<lambda>a. Name a = ?n) a (''--'' @ ?n) rest
         (noteFlags ?n ''help'' ''version'' st) = Inr (st', k)"
      by simp
    from takeNext_store[OF this] show ?thesis by auto
  qed
qed

lemma step_option_positional:
  assumes "step L arg rest st = Inr (st', k)" and "HasPrefix arg ''-''"
  shows "positionalS st' = positionalS st \<and> positionalIndex st' = positionalIndex st"
proof (cases "HasPrefix arg ''--''")
  case True
  with assms have "longOption L arg rest st = Inr (st', k)" by (simp add: step_def)
  from longOption_positional[OF this] show ?thesis .
next
  case False
  with assms have
    "cluster L (drop 1 arg) rest (noteFlags (drop 1 arg) ''h'' ''V'' st) = Inr (st', k)"
    by (simp add: step_def shortOption_def)
  from cluster_positional[OF this] show ?thesis by simp
qed

lemma step_dashless:
  assumes "step L arg rest st = Inr (st', k)" and "\<not> HasPrefix arg ''-''"
  shows "positionalIndex st < length (positionalS st)
       \<and> positionalIndex st' = Suc (positionalIndex st)
       \<and> positionalS st' = (positionalS st)[positionalIndex st :=
             (positionalS st ! positionalIndex st)\<lparr>isSet := True\<rparr>]
       \<and> (\<exists>v. result st' = (result st)(Name (positionalS st ! positionalIndex st) \<mapsto> v))"
  using assms
  by (auto simp: step_def positionalArg_def Let_def split: if_splits sum.splits)

lemma dashless_Cons:
  "dashless (t # ts) = (if HasPrefix t ''-'' then dashless ts else Suc (dashless ts))"
  by (simp add: dashless_def)

lemma dashless_drop: "dashless (drop k ts) \<le> dashless ts"
proof -
  have "dashless (take k ts @ drop k ts) = dashless (take k ts) + dashless (drop k ts)"
    unfolding dashless_def by (simp only: filter_append length_append)
  then show ?thesis by simp
qed

lemma walk_positional:
  "walk L ts st = Inr st' \<Longrightarrow>
     positionalIndex st \<le> positionalIndex st'
     \<and> positionalIndex st' \<le> positionalIndex st + dashless ts
     \<and> (\<forall>i. i < positionalIndex st \<or> positionalIndex st' \<le> i \<longrightarrow>
            positionalS st' ! i = positionalS st ! i)"
proof (induction L ts st rule: walk.induct)
  case (1 L st)
  then show ?case by simp
next
  case (2 L arg rest st)
  from "2.prems" obtain st1 k where
    s: "step L arg rest st = Inr (st1, k)" and w: "walk L (drop k rest) st1 = Inr st'"
    by (auto split: sum.splits)
  note ih = "2.IH"[OF s refl w]
  note dd = dashless_drop[of k rest]
  show ?case
  proof (cases "HasPrefix arg ''-''")
    case True
    from step_option_positional[OF s True] ih dd True show ?thesis
      by (auto simp: dashless_Cons)
  next
    case False
    from step_dashless[OF s False] ih dd False show ?thesis
      by (auto simp: dashless_Cons)
  qed
qed

subsection \<open>A key is written by a token that addresses a definition of that name\<close>

lemma all2_marked_back:
  "list_all2 marked as bs \<Longrightarrow> b \<in> set bs \<Longrightarrow> \<exists>a \<in> set as. marked a b"
  by (induction rule: list_all2_induct) auto

lemma addressed_back:
  assumes "list_all2 marked as bs" and "b \<in> set bs" and "Name b = k"
    and "list_ex (addresses b) ts"
  shows "\<exists>a \<in> set as. Name a = k \<and> list_ex (addresses a) ts"
proof -
  from all2_marked_back[OF assms(1,2)] obtain a where a: "a \<in> set as" "marked a b" by blast
  with assms(3,4) marked_Name[OF a(2)] marked_list_ex[OF a(2)] show ?thesis by auto
qed

lemma store_keys: "result (store P n v st) k \<noteq> result st k \<Longrightarrow> k = n"
  by (auto simp: store_def split: if_splits)

lemma find_in: "find P xs = Some a \<Longrightarrow> a \<in> set xs \<and> P a"
  by (auto simp: find_Some_iff)

lemma store_found_keys:
  assumes "find P (optionS st) = Some a" and "\<forall>b. P b \<longrightarrow> addresses b t"
    and "result (store P (Name a) v st) k \<noteq> result st k"
  shows "\<exists>a \<in> set (optionS st). Name a = k \<and> list_ex (addresses a) [t]"
  using find_in[OF assms(1)] assms(2) store_keys[OF assms(3)] by auto

lemma cluster_keys:
  assumes "HasPrefix t ''-''" and "\<not> HasPrefix t ''--''"
  shows "cluster L s rest st = Inr (st', k') \<Longrightarrow> set (tails s) \<subseteq> set (tails (drop 1 t)) \<Longrightarrow>
           result st' k \<noteq> result st k \<Longrightarrow>
           \<exists>a \<in> set (optionS st). Name a = k \<and> list_ex (addresses a) [t]"
proof (induction L s rest st arbitrary: st' k' rule: cluster.induct)
  case (1 L rest st)
  then show ?case by simp
next
  case (2 L c cs rest st)
  let ?P = "\<lambda>a. ShortName a = runeText (c # cs)"
  let ?next = "drop (runeWidth (c # cs) - 1) cs"
  from "2.prems"(1) obtain a where f: "find ?P (optionS st) = Some a"
    by (auto split: option.splits)
  from "2.prems"(2) have "c # cs \<in> set (tails (drop 1 t))" by simp
  then have P: "\<forall>b. ?P b \<longrightarrow> addresses b t"
    using addresses_short[OF assms] by blast
  have sub: "set (tails ?next) \<subseteq> set (tails (drop 1 t))"
    using tails_drop[of "runeWidth (c # cs) - 1" cs] "2.prems"(2) by auto
  note sk = store_found_keys[of ?P st a t, OF f P]
  show ?case
  proof (cases "ArgType a = BoolType \<or> ArgType a = CounterType")
    case True
    then show ?thesis
      using "2.prems"(1,3) f sk
      by (auto simp: Let_def split: if_splits)
  next
    case False
    show ?thesis
    proof (cases "cs = []")
      case True
      with "2.prems"(1) f False have
        "takeNext L ?P a (CHR ''-'' # runeText (c # cs)) rest st = Inr (st', k')"
        by (cases "ArgType a") auto
      from takeNext_store[OF this] "2.prems"(3) sk show ?thesis by auto
    next
      case ne: False
      from "2.prems"(1) f False ne obtain x where
        x: "parseValue L (ArgType a) cs = Inr x"
        and c: "cluster L ?next rest (store ?P (Name a) x st) = Inr (st', k')"
        by (cases "ArgType a") (auto split: sum.splits)
      let ?s1 = "store ?P (Name a) x st"
      show ?thesis
      proof (cases "result st' k = result ?s1 k")
        case True
        with "2.prems"(3) have "result ?s1 k \<noteq> result st k" by simp
        from sk[OF this] show ?thesis .
      next
        case ch: False
        have "\<exists>b \<in> set (optionS ?s1). Name b = k \<and> list_ex (addresses b) [t]"
          using "2.IH"(3)[OF f _ ne x c sub ch] "2.IH" f False ne x c sub ch
          by (cases "ArgType a") auto
        then obtain b where b: "b \<in> set (optionS ?s1)" "Name b = k" "list_ex (addresses b) [t]"
          by blast
        have "list_all2 marked (optionS st) (optionS ?s1)"
          by (simp add: store_def markFirst_marked)
        from addressed_back[OF this b] show ?thesis .
      qed
    qed
  qed
qed

lemma longOption_keys:
  assumes "HasPrefix arg ''--''" and "longOption L arg rest st = Inr (st', k')"
    and "result st' k \<noteq> result (noteFlags (longName arg) ''help'' ''version'' st) k"
  shows "\<exists>a \<in> set (optionS st). Name a = k \<and> list_ex (addresses a) [arg]"
proof -
  let ?n = "takeWhile (\<lambda>c. c \<noteq> CHR ''='') (drop 2 arg)"
  let ?P = "\<lambda>a. Name a = ?n"
  let ?s0 = "noteFlags ?n ''help'' ''version'' st"
  from assms(2) obtain a where f: "find ?P (optionS ?s0) = Some a"
    by (auto simp: longOption_def Let_def split: option.splits)
  have P: "\<forall>b. ?P b \<longrightarrow> addresses b arg"
    using assms(1) by (simp add: addresses_def longName_def)
  note sk = store_found_keys[of ?P ?s0 a arg, OF f P]
  have "\<exists>v. st' = store ?P (Name a) v ?s0"
  proof (cases "ArgType a = BoolType \<or> ArgType a = CounterType \<or> CHR ''='' \<in> set (drop 2 arg)")
    case True
    then show ?thesis
      using assms(2) f
      by (cases "ArgType a") (auto simp: longOption_def Let_def split: sum.splits)
  next
    case False
    with assms(2) longOption_takeNext[of arg st a L rest] f have
      "takeNext L ?P a (''--'' @ ?n) rest ?s0 = Inr (st', k')"
      by simp
    from takeNext_store[OF this] show ?thesis .
  qed
  with assms(3) sk show ?thesis by (auto simp: longName_def)
qed

lemma noteFlags_keys:
  "result (noteFlags n h v st) k \<noteq> result st k \<Longrightarrow>
     (n = h \<and> k = ''help'') \<or> (n = v \<and> k = ''version'')"
  by (auto simp: noteFlags_def split: if_splits)

lemma step_keys:
  assumes s: "step L arg rest st = Inr (st', k')" and ch: "result st' k \<noteq> result st k"
  shows "touched st [arg] (positionalIndex st') k"
proof (cases "HasPrefix arg ''-''")
  case False
  from step_dashless[OF s False] ch have
    "positionalIndex st < length (positionalS st)"
    "positionalIndex st' = Suc (positionalIndex st)"
    "k = Name (positionalS st ! positionalIndex st)"
    by (auto split: if_splits)
  then show ?thesis unfolding touched_def by auto
next
  case True
  show ?thesis
  proof (cases "HasPrefix arg ''--''")
    case long: True
    let ?s0 = "noteFlags (longName arg) ''help'' ''version'' st"
    from s True long have l: "longOption L arg rest st = Inr (st', k')" by (simp add: step_def)
    show ?thesis
    proof (cases "result st' k = result ?s0 k")
      case False
      from longOption_keys[OF long l False] show ?thesis unfolding touched_def by blast
    next
      case True
      with ch have "result ?s0 k \<noteq> result st k" by simp
      from noteFlags_keys[OF this] long show ?thesis
        unfolding touched_def by (auto simp: isHelpToken_def isVersionToken_def)
    qed
  next
    case short: False
    let ?s0 = "noteFlags (drop 1 arg) ''h'' ''V'' st"
    from s True short have c: "cluster L (drop 1 arg) rest ?s0 = Inr (st', k')"
      by (simp add: step_def shortOption_def)
    from HasPrefix_dash_drop[OF True] have
      e: "(drop 1 arg = ''h'') = (arg = ''-h'')" "(drop 1 arg = ''V'') = (arg = ''-V'')"
      by (metis list.inject)+
    show ?thesis
    proof (cases "result st' k = result ?s0 k")
      case False
      from cluster_keys[OF True short c _ False] show ?thesis
        unfolding touched_def by auto
    next
      case True
      with ch have "result ?s0 k \<noteq> result st k" by simp
      from noteFlags_keys[OF this] short e show ?thesis
        unfolding touched_def by (auto simp: isHelpToken_def isVersionToken_def)
    qed
  qed
qed

lemma touched_mono:
  assumes "touched st ts hi k" and "set ts \<subseteq> set ts'" and "hi \<le> hi'"
  shows "touched st ts' hi' k"
proof -
  have m: "\<And>P. list_ex P ts \<Longrightarrow> list_ex P ts'"
    using assms(2) by (auto simp: list_ex_iff)
  from assms(1) consider
    (a) a where "a \<in> set (optionS st)" "Name a = k" "list_ex (addresses a) ts"
    | (b) i where "positionalIndex st \<le> i" "i < hi" "i < length (positionalS st)"
        "Name (positionalS st ! i) = k"
    | (c) "k = ''help''" "list_ex isHelpToken ts"
    | (d) "k = ''version''" "list_ex isVersionToken ts"
    unfolding touched_def by blast
  then show ?thesis
  proof cases
    case a
    with m show ?thesis unfolding touched_def by blast
  next
    case b
    with assms(3) have "i < hi'" by simp
    with b show ?thesis unfolding touched_def by blast
  next
    case c
    with m show ?thesis unfolding touched_def by blast
  next
    case d
    with m show ?thesis unfolding touched_def by blast
  qed
qed

lemma touched_back:
  assumes e: "extends st st1" and le: "positionalIndex st \<le> positionalIndex st1"
    and t: "touched st1 ts hi k"
  shows "touched st ts hi k"
proof -
  from e have mo: "list_all2 marked (optionS st) (optionS st1)"
    and mp: "list_all2 marked (positionalS st) (positionalS st1)"
    by (simp_all add: extends_def)
  from t consider
    (a) b where "b \<in> set (optionS st1)" "Name b = k" "list_ex (addresses b) ts"
    | (b) i where "positionalIndex st1 \<le> i" "i < hi" "i < length (positionalS st1)"
        "Name (positionalS st1 ! i) = k"
    | (c) "k = ''help''" "list_ex isHelpToken ts"
    | (d) "k = ''version''" "list_ex isVersionToken ts"
    unfolding touched_def by blast
  then show ?thesis
  proof cases
    case a
    from addressed_back[OF mo a] show ?thesis unfolding touched_def by blast
  next
    case b
    from list_all2_lengthD[OF mp] b(3) have l: "i < length (positionalS st)" by simp
    from list_all2_nthD[OF mp l] have "Name (positionalS st1 ! i) = Name (positionalS st ! i)"
      by (rule marked_Name)
    with b l le have "\<exists>i. positionalIndex st \<le> i \<and> i < hi \<and> i < length (positionalS st)
        \<and> Name (positionalS st ! i) = k"
      by (intro exI[of _ i]) simp
    then show ?thesis unfolding touched_def by blast
  next
    case c
    then show ?thesis unfolding touched_def by blast
  next
    case d
    then show ?thesis unfolding touched_def by blast
  qed
qed

lemma walk_keys:
  "walk L ts st = Inr st' \<Longrightarrow> result st' k \<noteq> result st k \<Longrightarrow>
     touched st ts (positionalIndex st') k"
proof (induction L ts st rule: walk.induct)
  case (1 L st)
  then show ?case by simp
next
  case (2 L arg rest st)
  from "2.prems"(1) obtain st1 j where
    s: "step L arg rest st = Inr (st1, j)" and w: "walk L (drop j rest) st1 = Inr st'"
    by (auto split: sum.splits)
  from walk_positional[OF w] have le1: "positionalIndex st1 \<le> positionalIndex st'" by simp
  have le0: "positionalIndex st \<le> positionalIndex st1"
    using step_option_positional[OF s] step_dashless[OF s] by (cases "HasPrefix arg ''-''") auto
  show ?case
  proof (cases "result st1 k = result st k")
    case False
    from step_keys[OF s False] show ?thesis
      by (rule touched_mono) (use le1 in auto)
  next
    case True
    with "2.prems"(2) have "result st' k \<noteq> result st1 k" by simp
    from "2.IH"[OF s refl w this] have "touched st1 (drop j rest) (positionalIndex st') k" .
    then have "touched st1 (arg # rest) (positionalIndex st') k"
      by (rule touched_mono) (use set_drop_subset in fastforce, simp)
    with step_extends[OF s] le0 show ?thesis by (rule touched_back)
  qed
qed

subsection \<open>Defaults and required definitions, by the tokens of the input\<close>


lemma distinct_names_index:
  assumes "distinct (map Name ds)" and "i < length ds" and "j < length ds"
    and "Name (ds ! i) = Name (ds ! j)"
  shows "i = j"
  using assms nth_eq_iff_index_eq[of "map Name ds" i j] by simp

lemma own_default_tokens:
  assumes d: "distinct (map Name (args p @ positional p))"
    and ok: "isOk (parseOwn L p ts)"
    and m: "m < length (args p @ positional p)"
    and dv: "DefaultVal ((args p @ positional p) ! m) = Some v"
    and ns: "notSupplied p ts m"
  shows "entry (parseOwn L p ts) (Name ((args p @ positional p) ! m)) = Some v"
proof -
  let ?defs = "args p @ positional p"
  let ?k = "Name (?defs ! m)"
  from ok obtain st where w: "walk L ts (initState p) = Inr st"
    and nh: "\<not> hasHelpFlag st" and nv: "\<not> hasVersionFlag st"
    and o: "parseOwn L p ts = Ok (result st)"
    by (rule own_Ok)
  from walk_flags[OF w] nh nv have nt: "\<not> list_ex isHelpToken ts" "\<not> list_ex isVersionToken ts"
    by simp_all
  from walk_positional[OF w] have hi: "positionalIndex st \<le> dashless ts"
    by (simp add: initState_def)
  have "result st ?k = seed p ?k"
  proof (rule ccontr)
    assume "result st ?k \<noteq> seed p ?k"
    then have "result st ?k \<noteq> result (initState p) ?k" by (simp add: initState_def)
    from walk_keys[OF w this] have "touched (initState p) ts (positionalIndex st) ?k" .
    with nt consider
      (a) a where "a \<in> set (args p)" "Name a = ?k" "list_ex (addresses a) ts"
      | (b) i where "i < positionalIndex st" "i < length (positional p)"
          "Name (positional p ! i) = ?k"
      unfolding touched_def by (auto simp: initState_def)
    then show False
    proof cases
      case a
      then obtain j where j: "j < length (args p)" "args p ! j = a"
        by (auto simp: in_set_conv_nth)
      with a have "Name (?defs ! j) = Name (?defs ! m)" by (simp add: nth_append)
      with d j m have "j = m" by (intro distinct_names_index[of ?defs]) simp_all
      with j a ns show False by (simp add: notSupplied_def)
    next
      case b
      let ?j = "length (args p) + i"
      from b have "Name (?defs ! ?j) = Name (?defs ! m)" by (simp add: nth_append)
      with d b m have "?j = m" by (intro distinct_names_index[of ?defs]) simp_all
      with ns b hi show False by (auto simp: notSupplied_def)
    qed
  qed
  moreover have "seed p ?k = Some v"
    using seed_default[OF d _ dv] m nth_mem[OF m] by simp
  ultimately show ?thesis using o by (simp add: entry_def)
qed



subsection \<open>The exits, by the tokens of the input\<close>

lemma own_exits:
  "(parseOwn L p ts = ExitHelp \<longleftrightarrow> \<not> isErr (parseOwn L p ts) \<and> list_ex isHelpToken ts)
   \<and> (parseOwn L p ts = ExitVersion \<longleftrightarrow>
        \<not> isErr (parseOwn L p ts) \<and> list_ex isVersionToken ts \<and> \<not> list_ex isHelpToken ts)"
proof (cases "walk L ts (initState p)")
  case (Inl e)
  then show ?thesis by (simp add: parseOwn_def isErr_def)
next
  case (Inr st)
  from walk_flags[OF Inr] have f:
    "hasHelpFlag st = list_ex isHelpToken ts" "hasVersionFlag st = list_ex isVersionToken ts"
    by (simp_all add: initState_def)
  show ?thesis
  proof (cases "hasHelpFlag st")
    case True
    with Inr have "parseOwn L p ts = ExitHelp" by (simp add: parseOwn_def)
    with True f show ?thesis by (simp add: isErr_def)
  next
    case nh: False
    show ?thesis
    proof (cases "hasVersionFlag st")
      case True
      with nh Inr have "parseOwn L p ts = ExitVersion" by (simp add: parseOwn_def)
      with True nh f show ?thesis by (simp add: isErr_def)
    next
      case False
      with nh Inr have o: "parseOwn L p ts = checkRequired st" by (simp add: parseOwn_def)
      have "checkRequired st \<noteq> ExitHelp" "checkRequired st \<noteq> ExitVersion"
        by (simp_all add: checkRequired_def split: option.splits)
      with o False nh f show ?thesis by simp
    qed
  qed
qed

lemma step_long_found:
  assumes "step L t rest st = Inr (st', k)" and "HasPrefix t ''--''"
  shows "True \<and> find (\<lambda>a. Name a = longName t) (optionS st) \<noteq> None"
proof -
  from assms have "HasPrefix t ''-''" by (rule_tac HasPrefix_dash2)
  with assms have "longOption L t rest st = Inr (st', k)" by (simp add: step_def)
  from longOption_found[OF this] show ?thesis by (simp add: longName_def)
qed

lemma own_long_token:
  assumes t: "t \<in> set ts" and l: "HasPrefix t ''--''"
    and f: "find (\<lambda>a. Name a = longName t) (args p) = None"
  shows "isErr (parseOwn L p ts)"
proof (cases "walk L ts (initState p)")
  case (Inl e)
  then show ?thesis by (simp add: parseOwn_def isErr_def)
next
  case (Inr st)
  have "True \<and> find (\<lambda>a. Name a = longName t) (optionS (initState p)) \<noteq> None"
    by (rule walk_token[OF Inr t HasPrefix_dash2[OF l], where flag = "\<lambda>s. True"])
       (use step_long_found l all2_marked_names in blast)+
  with f show ?thesis by (simp add: initState_def)
qed

subsection \<open>The look-ahead\<close>

lemma takeNext_dash: "takeNext L P a shown (''-'' # rest) st = Inl (RequiresValue shown)"
  by (simp add: takeNext_def HasPrefix_def)

lemma cluster_look:
  assumes "\<And>P a shown st. takeNext L P a shown r st = takeNext L P a shown r' st"
  shows "cluster L s r st = cluster L s r' st"
  using assms
proof (induction L s r st rule: cluster.induct)
  case (1 L rest st)
  then show ?case by simp
next
  case (2 L c cs rest st)
  show ?case
  proof (cases "find (\<lambda>a. ShortName a = runeText (c # cs)) (optionS st)")
    case None
    then show ?thesis by simp
  next
    case (Some a)
    show ?thesis
    proof (cases "cs = []")
      case True
      with Some "2.prems" "2.IH"(1,2)[OF Some] show ?thesis
        by (cases "ArgType a") (simp_all add: runeWidth_def)
    next
      case False
      show ?thesis
      proof (cases "parseValue L (ArgType a) cs")
        case (Inl e)
        with Some False show ?thesis by (cases "ArgType a") simp_all
      next
        case (Inr x)
        show ?thesis
          using Some False Inr "2.prems" "2.IH"
          by (cases "ArgType a") auto
      qed
    qed
  qed
qed

lemma longOption_look:
  assumes "\<And>P a shown st. takeNext L P a shown r st = takeNext L P a shown r' st"
  shows "longOption L arg r st = longOption L arg r' st"
proof (cases "find (\<lambda>a. Name a = takeWhile (\<lambda>c. c \<noteq> CHR ''='') (drop 2 arg)) (optionS st)")
  case None
  then show ?thesis by (simp add: longOption_def Let_def)
next
  case (Some a)
  show ?thesis
  proof (cases "ArgType a = BoolType \<or> ArgType a = CounterType \<or> CHR ''='' \<in> set (drop 2 arg)")
    case True
    from longOption_no_lookahead[OF Some True] show ?thesis .
  next
    case False
    then show ?thesis
      using longOption_takeNext[OF Some, of L r] longOption_takeNext[OF Some, of L r'] assms
      by simp
  qed
qed

lemma step_look:
  assumes "\<And>P a shown st. takeNext L P a shown r st = takeNext L P a shown r' st"
  shows "step L arg r st = step L arg r' st"
proof -
  have c: "cluster L (drop 1 arg) r (noteFlags (drop 1 arg) ''h'' ''V'' st)
             = cluster L (drop 1 arg) r' (noteFlags (drop 1 arg) ''h'' ''V'' st)"
    by (rule cluster_look[OF assms])
  have l: "longOption L arg r st = longOption L arg r' st"
    by (rule longOption_look[OF assms])
  show ?thesis by (simp only: step_def shortOption_def c l)
qed

lemma step_dash_next: "step L arg (''-'' # rest) st = step L arg [] st"
  by (rule step_look) (simp add: takeNext_def HasPrefix_def)

lemma step_head: "step L arg (x # r) st = step L arg (x # r') st"
  by (rule step_look) (simp add: takeNext_def)

lemma step_before_dash: "step L arg (rest @ ''-'' # post) st = step L arg rest st"
proof (cases rest)
  case Nil
  then show ?thesis by (simp add: step_dash_next)
next
  case (Cons x r)
  then show ?thesis using step_head[of L arg x "r @ ''-'' # post" st r] by simp
qed

lemma walk_barrier:
  "walk L (pre @ ''-'' # post) st =
     (case walk L pre st of Inl e \<Rightarrow> Inl e | Inr st1 \<Rightarrow> walk L post st1)"
proof (induction L pre st rule: walk.induct)
  case (1 L st)
  then show ?case by (simp add: step_dash)
next
  case (2 L arg rest st)
  show ?case
  proof (cases "step L arg rest st")
    case (Inl e)
    then show ?thesis by (simp add: step_before_dash)
  next
    case (Inr r)
    obtain st1 k where r: "r = (st1, k)" by (cases r)
    from step_shape[of L arg rest st st1 k] Inr r have "k \<le> length rest" by auto
    then have d: "drop k (rest @ ''-'' # post) = drop k rest @ ''-'' # post" by simp
    from Inr r have s: "step L arg rest st = Inr (st1, k)" by simp
    then have s': "step L arg (rest @ ''-'' # post) st = Inr (st1, k)"
      by (simp only: step_before_dash)
    from s have w1: "walk L (arg # rest) st = walk L (drop k rest) st1" by simp
    from s' have w2: "walk L ((arg # rest) @ ''-'' # post) st
                     = walk L (drop k (rest @ ''-'' # post)) st1"
      by simp
    have ih: "walk L (drop k rest @ ''-'' # post) st1 =
                (case walk L (drop k rest) st1 of Inl e \<Rightarrow> Inl e | Inr st2 \<Rightarrow> walk L post st2)"
      by (rule "2.IH"[OF s refl])
    show ?thesis by (simp only: w1 w2 d ih)
  qed
qed

lemma step_long_waits:
  assumes "find (\<lambda>a. Name a = n) (optionS st) = Some a"
    and "ArgType a \<noteq> BoolType" and "ArgType a \<noteq> CounterType" and "CHR ''='' \<notin> set n"
  shows "step L (''--'' @ n) (''-'' # rest) st = Inl (RequiresValue (''--'' @ n))"
proof -
  from assms(4) have tw: "takeWhile (\<lambda>c. c \<noteq> CHR ''='') n = n"
    by (auto simp: takeWhile_eq_all_conv)
  have d: "drop 2 (''--'' @ n) = n" by simp
  have s: "step L (''--'' @ n) (''-'' # rest) st = longOption L (''--'' @ n) (''-'' # rest) st"
    by (simp add: step_def HasPrefix_def)
  from assms have
    "longOption L (''--'' @ n) (''-'' # rest) st =
       takeNext L (\<lambda>a. Name a = n) a (''--'' @ n) (''-'' # rest)
         (noteFlags n ''help'' ''version'' st)"
    using longOption_takeNext[of "''--'' @ n" st a L "''-'' # rest"] unfolding d tw by simp
  with s show ?thesis by (simp only: takeNext_dash)
qed

lemma step_short_waits:
  assumes "find (\<lambda>a. ShortName a = [c]) (optionS st) = Some a"
    and "ArgType a \<noteq> BoolType" and "ArgType a \<noteq> CounterType"
    and "(of_char c :: nat) < 128" and "c \<noteq> CHR ''-''"
  shows "step L [CHR ''-'', c] (''-'' # rest) st = Inl (RequiresValue [CHR ''-'', c])"
  using assms
  by (cases "ArgType a")
     (simp_all add: step_def HasPrefix_def shortOption_def runeText_ascii takeNext_dash)

subsection \<open>The look-ahead, from the parser's definitions\<close>

lemma marked_ArgType: "marked a b \<Longrightarrow> ArgType b = ArgType a"
  by (auto simp: marked_def)

lemma find_marked:
  assumes "list_all2 marked as bs" and "\<And>a b. marked a b \<Longrightarrow> f b = f a"
  shows "find (\<lambda>a. f a = x) as = Some a \<Longrightarrow> \<exists>b. find (\<lambda>a. f a = x) bs = Some b \<and> marked a b"
  using assms(1)
proof (induction rule: list_all2_induct)
  case Nil
  then show ?case by simp
next
  case (Cons a' as b' bs)
  from assms(2)[OF Cons.hyps(1)] have "f b' = f a'" .
  with Cons show ?case by (cases "f a' = x") auto
qed

lemma own_long_waits:
  assumes w: "\<not> isl (walk L pre (initState p))"
    and f: "find (\<lambda>a. Name a = n) (args p) = Some a"
    and t: "ArgType a \<noteq> BoolType" "ArgType a \<noteq> CounterType" and e: "CHR ''='' \<notin> set n"
  shows "parseOwn L p (pre @ (''--'' @ n) # ''-'' # post) = Err (RequiresValue (''--'' @ n))"
proof -
  from w obtain st1 where w1: "walk L pre (initState p) = Inr st1"
    by (cases "walk L pre (initState p)") auto
  from walk_extends[OF w1] have "list_all2 marked (args p) (optionS st1)"
    by (simp add: extends_def initState_def)
  from find_marked[OF this marked_Name f] obtain b where
    b: "find (\<lambda>a. Name a = n) (optionS st1) = Some b" "marked a b" by blast
  with t marked_ArgType[OF b(2)] have "ArgType b \<noteq> BoolType" "ArgType b \<noteq> CounterType"
    by simp_all
  from step_long_waits[OF b(1) this e] have
    "walk L ((''--'' @ n) # ''-'' # post) st1 = Inl (RequiresValue (''--'' @ n))"
    by (simp only: walk.simps sum.case)
  with walk_append[OF w1] show ?thesis by (simp only: parseOwn_def sum.case)
qed

lemma own_short_waits:
  assumes w: "\<not> isl (walk L pre (initState p))"
    and f: "find (\<lambda>a. ShortName a = [c]) (args p) = Some a"
    and t: "ArgType a \<noteq> BoolType" "ArgType a \<noteq> CounterType"
    and c: "(of_char c :: nat) < 128" "c \<noteq> CHR ''-''"
  shows "parseOwn L p (pre @ [CHR ''-'', c] # ''-'' # post) = Err (RequiresValue [CHR ''-'', c])"
proof -
  from w obtain st1 where w1: "walk L pre (initState p) = Inr st1"
    by (cases "walk L pre (initState p)") auto
  from walk_extends[OF w1] have "list_all2 marked (args p) (optionS st1)"
    by (simp add: extends_def initState_def)
  from find_marked[OF this marked_ShortName f] obtain b where
    b: "find (\<lambda>a. ShortName a = [c]) (optionS st1) = Some b" "marked a b" by blast
  with t marked_ArgType[OF b(2)] have "ArgType b \<noteq> BoolType" "ArgType b \<noteq> CounterType"
    by simp_all
  from step_short_waits[OF b(1) this c] have
    "walk L ([CHR ''-'', c] # ''-'' # post) st1 = Inl (RequiresValue [CHR ''-'', c])"
    by (simp only: walk.simps sum.case)
  with walk_append[OF w1] show ?thesis by (simp only: parseOwn_def sum.case)
qed

subsection \<open>What a registration leaves of the earlier definitions\<close>

lemma args_Flag: "args (Flag s l options p) =
    args p @ [(orEmpty options)\<lparr>ShortName := s, Name := l, isPositional := False\<rparr>]"
  by (simp add: Flag_def setArgs_def)

lemma args_Flag_nth: "j < length (args p) \<Longrightarrow> args (Flag s l options p) ! j = args p ! j"
  by (simp add: args_Flag nth_append)

lemma args_registered_nth:
  assumes "j < length (args p)"
  shows "args (StringArg s l options p) ! j = args p ! j"
    and "args (IntArg s l options p) ! j = args p ! j"
    and "args (BoolArg s l options p) ! j = args p ! j"
    and "args (CounterArg s l options p) ! j = args p ! j"
    and "args (AddHelp p) ! j = args p ! j"
    and "args (AddVersion p) ! j = args p ! j"
  using assms
  by (simp_all add: StringArg_def IntArg_def BoolArg_def CounterArg_def AddHelp_def
      AddVersion_def args_Flag_nth)

lemma args_unregistered:
  "args (Positional n options p) = args p"
  "args (NewCommand n d p) = args p"
  "args (onCommand n f p) = args p"
  by (simp_all add: Positional_def NewCommand_def onCommand_def setPositional_def
      setSubparsers_def)

lemma args_onLast:
  "args (onLast f p) = (if args p = [] then [] else butlast (args p) @ [f (last (args p))])"
proof (cases "args p" rule: rev_cases)
  case Nil
  then show ?thesis by (simp add: onLast_def)
next
  case (snoc as a)
  then show ?thesis by (simp add: onLast_def setArgs_def)
qed

lemma args_onLast_nth:
  "Suc j < length (args p) \<Longrightarrow> args (onLast f p) ! j = args p ! j"
  by (auto simp: args_onLast nth_append nth_butlast)

lemma args_onLast_last:
  "args p \<noteq> [] \<Longrightarrow> last (args (onLast f p)) = f (last (args p))"
  by (simp add: args_onLast)

section \<open>Properties\<close>

subsection \<open>C1: the allowed choices\<close>

text \<open>
  C1 says that a value outside the allowed-choices set of its definition makes \<open>Parse\<close>
  fail with an invalid-choice error. \<open>Parse\<close> never reads \<open>ValidChoices\<close>, and none of
  its errors is an invalid-choice error. At the input the test script runs as
  \<open>Testing invalid choice (should fail)\<close>, the option \<open>--choice\<close> with the choices
  \<open>option1\<close>, \<open>option2\<close>, \<open>option3\<close> given \<open>invalid\<close>, \<open>Parse\<close> succeeds and stores
  \<open>invalid\<close>.
\<close>

theorem C1_choices_not_checked:
  "ValidChoices (last (args choiceParser)) = [''option1'', ''option2'', ''option3'']
   \<and> isOk (Parse noLib choiceParser [''--choice'', ''invalid''])
   \<and> entry (Parse noLib choiceParser [''--choice'', ''invalid'']) ''choice'' = Some (VString ''invalid'')"
  by code_simp

subsection \<open>C2 and C3: short clusters\<close>

text \<open>
  C2 says that \<open>-p8080\<close>, with \<open>p\<close> an integer option, stores 8080 and ends the cluster.
  In the code the value 8080 is parsed and stored, and the loop over the cluster then goes
  on with the character \<open>8\<close> as an alias: \<open>Parse\<close> fails with \<open>unknown argument: -8\<close>.
\<close>

theorem C2_fused_short_value:
  "Parse noLib portParser [''-p8080''] = Err (UnknownArgument ''-8'')"
  by (rule failure_Some) code_simp

text \<open>
  C3 says that \<open>-abc value\<close>, with \<open>a\<close> and \<open>b\<close> boolean and \<open>c\<close> taking a value, sets
  all three. In the code the loop over the cluster is left after the first boolean alias
  whenever a character follows it, so only \<open>a\<close> is set; \<open>value\<close> is then a positional
  token, and the parser has no positional definition:
  \<open>unrecognized positional argument: value\<close>.
\<close>

theorem C3_short_cluster:
  "Parse noLib abcParser [''-abc'', ''value''] = Err (UnrecognizedPositional ''value'')"
  by (rule failure_Some) code_simp

subsection \<open>C4: help and version tokens\<close>

text \<open>
  C4, as the code has it. A help token is \<open>-h\<close>, or a token that starts with \<open>--\<close> and
  has the name \<open>help\<close> between the two dashes and its first \<open>=\<close> (\<open>--help\<close>, \<open>--help=x\<close>); a
  version token is \<open>-V\<close>, or a token that starts with \<open>--\<close> and has the name \<open>version\<close>.
  Let \<open>Parse\<close> handle the input itself (no subcommand takes over).
  \<^item> \<open>Parse\<close> ends the process with the help exit exactly when it does not fail and the
    input has a help token; it ends the process with the version exit exactly when it does
    not fail and the input has a version token and no help token.
  \<^item> Whether a definition is registered does matter. A token that starts with \<open>--\<close> and
    whose name is the long name of no optional definition makes \<open>Parse\<close> fail, and so do
    \<open>-h\<close> when no optional definition has the alias \<open>h\<close> and \<open>-V\<close> when none has the
    alias \<open>V\<close>. When \<open>--help\<close>, \<open>-h\<close>, \<open>--version\<close> or \<open>-V\<close> is the first token and no
    definition has that long name or alias, the error is \<open>unknown argument\<close> naming the
    token.
\<close>

theorem C4_help_version_tokens:
  assumes "\<not> delegates p ts"
  shows "(Parse L p ts = ExitHelp \<longleftrightarrow> \<not> isErr (Parse L p ts) \<and> list_ex isHelpToken ts)
       \<and> (Parse L p ts = ExitVersion \<longleftrightarrow>
            \<not> isErr (Parse L p ts) \<and> list_ex isVersionToken ts \<and> \<not> list_ex isHelpToken ts)
       \<and> (t \<in> set ts \<and> HasPrefix t ''--'' \<and> find (\<lambda>a. Name a = longName t) (args p) = None \<longrightarrow>
            isErr (Parse L p ts))
       \<and> (''-h'' \<in> set ts \<and> find (\<lambda>a. ShortName a = ''h'') (args p) = None \<longrightarrow>
            isErr (Parse L p ts))
       \<and> (''-V'' \<in> set ts \<and> find (\<lambda>a. ShortName a = ''V'') (args p) = None \<longrightarrow>
            isErr (Parse L p ts))
       \<and> (hd ts = ''--help'' \<and> ts \<noteq> [] \<and> find (\<lambda>a. Name a = ''help'') (args p) = None \<longrightarrow>
            Parse L p ts = Err (UnknownArgument ''--help''))
       \<and> (hd ts = ''-h'' \<and> ts \<noteq> [] \<and> find (\<lambda>a. ShortName a = ''h'') (args p) = None \<longrightarrow>
            Parse L p ts = Err (UnknownArgument ''-h''))
       \<and> (hd ts = ''--version'' \<and> ts \<noteq> [] \<and> find (\<lambda>a. Name a = ''version'') (args p) = None \<longrightarrow>
            Parse L p ts = Err (UnknownArgument ''--version''))
       \<and> (hd ts = ''-V'' \<and> ts \<noteq> [] \<and> find (\<lambda>a. ShortName a = ''V'') (args p) = None \<longrightarrow>
            Parse L p ts = Err (UnknownArgument ''-V''))"
proof -
  have P: "Parse L p ts = parseOwn L p ts" by (rule Parse_own[OF assms])
  have a: "Parse L p ts = ExitHelp \<longleftrightarrow> \<not> isErr (Parse L p ts) \<and> list_ex isHelpToken ts"
    unfolding P using own_exits[of L p ts] by blast
  have b: "Parse L p ts = ExitVersion \<longleftrightarrow>
            \<not> isErr (Parse L p ts) \<and> list_ex isVersionToken ts \<and> \<not> list_ex isHelpToken ts"
    unfolding P using own_exits[of L p ts] by blast
  have c1: "t \<in> set ts \<and> HasPrefix t ''--'' \<and> find (\<lambda>a. Name a = longName t) (args p) = None \<longrightarrow>
            isErr (Parse L p ts)"
    unfolding P using own_long_token[of t ts p L] by blast
  have c2: "''-h'' \<in> set ts \<and> find (\<lambda>a. ShortName a = ''h'') (args p) = None \<longrightarrow>
            isErr (Parse L p ts)"
    using own_h[of ts L p] unfolding P by blast
  have c4: "''-V'' \<in> set ts \<and> find (\<lambda>a. ShortName a = ''V'') (args p) = None \<longrightarrow>
            isErr (Parse L p ts)"
    using own_V[of ts L p] unfolding P by blast
  have d1: "hd ts = ''--help'' \<and> ts \<noteq> [] \<and> find (\<lambda>a. Name a = ''help'') (args p) = None \<longrightarrow>
            Parse L p ts = Err (UnknownArgument ''--help'')"
    unfolding P using own_first_long[of "''help''" p L "tl ts"] by (cases ts) auto
  have d2: "hd ts = ''-h'' \<and> ts \<noteq> [] \<and> find (\<lambda>a. ShortName a = ''h'') (args p) = None \<longrightarrow>
            Parse L p ts = Err (UnknownArgument ''-h'')"
    unfolding P using own_first_short[of "CHR ''h''" p L "tl ts"] by (cases ts) auto
  have d3: "hd ts = ''--version'' \<and> ts \<noteq> [] \<and> find (\<lambda>a. Name a = ''version'') (args p) = None \<longrightarrow>
            Parse L p ts = Err (UnknownArgument ''--version'')"
    unfolding P using own_first_long[of "''version''" p L "tl ts"] by (cases ts) auto
  have d4: "hd ts = ''-V'' \<and> ts \<noteq> [] \<and> find (\<lambda>a. ShortName a = ''V'') (args p) = None \<longrightarrow>
            Parse L p ts = Err (UnknownArgument ''-V'')"
    unfolding P using own_first_short[of "CHR ''V''" p L "tl ts"] by (cases ts) auto
  from a b c1 c2 c4 d1 d2 d3 d4 show ?thesis by (intro conjI)
qed

text \<open>
  The theorem at work. After \<open>AddHelp()\<close> and \<open>AddVersion()\<close>, the input
  \<open>--help=x --version\<close> ends with the help exit and the input \<open>-V\<close> with the version exit.
  On a parser with nothing registered, \<open>--help=x\<close> fails, and each of the four tokens
  alone fails as an unknown argument.
\<close>

theorem C4_help_version_tokens_witness:
  "(\<not> delegates helpParser [''--help=x'', ''--version'']
    \<and> \<not> isErr (Parse noLib helpParser [''--help=x'', ''--version''])
    \<and> list_ex isHelpToken [''--help=x'', ''--version'']
    \<and> Parse noLib helpParser [''--help=x'', ''--version''] = ExitHelp)
   \<and> (\<not> delegates helpParser [''-V'']
    \<and> \<not> isErr (Parse noLib helpParser [''-V''])
    \<and> list_ex isVersionToken [''-V''] \<and> \<not> list_ex isHelpToken [''-V'']
    \<and> Parse noLib helpParser [''-V''] = ExitVersion)
   \<and> (\<not> delegates bareParser [''--help=x'']
    \<and> ''--help=x'' \<in> set [''--help=x''] \<and> HasPrefix ''--help=x'' ''--''
    \<and> find (\<lambda>a. Name a = longName ''--help=x'') (args bareParser) = None
    \<and> isErr (Parse noLib bareParser [''--help=x'']))
   \<and> (\<not> delegates bareParser [''--help'']
    \<and> hd [''--help''] = ''--help'' \<and> [''--help''] \<noteq> []
    \<and> find (\<lambda>a. Name a = ''help'') (args bareParser) = None
    \<and> Parse noLib bareParser [''--help''] = Err (UnknownArgument ''--help''))
   \<and> (\<not> delegates bareParser [''-h'']
    \<and> ''-h'' \<in> set [''-h''] \<and> hd [''-h''] = ''-h'' \<and> [''-h''] \<noteq> []
    \<and> find (\<lambda>a. ShortName a = ''h'') (args bareParser) = None
    \<and> isErr (Parse noLib bareParser [''-h''])
    \<and> Parse noLib bareParser [''-h''] = Err (UnknownArgument ''-h''))
   \<and> (\<not> delegates bareParser [''--version'']
    \<and> hd [''--version''] = ''--version'' \<and> [''--version''] \<noteq> []
    \<and> find (\<lambda>a. Name a = ''version'') (args bareParser) = None
    \<and> Parse noLib bareParser [''--version''] = Err (UnknownArgument ''--version''))
   \<and> (\<not> delegates bareParser [''-V'']
    \<and> ''-V'' \<in> set [''-V''] \<and> hd [''-V''] = ''-V'' \<and> [''-V''] \<noteq> []
    \<and> find (\<lambda>a. ShortName a = ''V'') (args bareParser) = None
    \<and> isErr (Parse noLib bareParser [''-V''])
    \<and> Parse noLib bareParser [''-V''] = Err (UnknownArgument ''-V''))"
proof -
  have g0: "\<not> delegates helpParser [''--help=x'', ''--version'']" by code_simp
  have g1: "\<not> isErr (Parse noLib helpParser [''--help=x'', ''--version''])" by code_simp
  have g2: "list_ex isHelpToken [''--help=x'', ''--version'']" by code_simp
  have v0: "\<not> delegates helpParser [''-V'']" by code_simp
  have v1: "\<not> isErr (Parse noLib helpParser [''-V''])" by code_simp
  have v2: "list_ex isVersionToken [''-V'']" by code_simp
  have v3: "\<not> list_ex isHelpToken [''-V'']" by code_simp
  have h0: "\<not> delegates bareParser [''--help=x'']" by code_simp
  have h1: "\<not> delegates bareParser [''--help'']" by code_simp
  have h2: "\<not> delegates bareParser [''-h'']" by code_simp
  have h3: "\<not> delegates bareParser [''--version'']" by code_simp
  have h4: "\<not> delegates bareParser [''-V'']" by code_simp
  have e0: "HasPrefix ''--help=x'' ''--''" by code_simp
  have f0: "find (\<lambda>a. Name a = longName ''--help=x'') (args bareParser) = None" by code_simp
  have f1: "find (\<lambda>a. Name a = ''help'') (args bareParser) = None" by code_simp
  have f2: "find (\<lambda>a. ShortName a = ''h'') (args bareParser) = None" by code_simp
  have f3: "find (\<lambda>a. Name a = ''version'') (args bareParser) = None" by code_simp
  have f4: "find (\<lambda>a. ShortName a = ''V'') (args bareParser) = None" by code_simp
  have m0: "''--help=x'' \<in> set [''--help=x'']" by simp
  have m2: "''-h'' \<in> set [''-h'']" "hd [''-h''] = ''-h''" "[''-h''] \<noteq> []" by simp_all
  have m4: "''-V'' \<in> set [''-V'']" "hd [''-V''] = ''-V''" "[''-V''] \<noteq> []" by simp_all
  have m1: "hd [''--help''] = ''--help''" "[''--help''] \<noteq> []" by simp_all
  have m3: "hd [''--version''] = ''--version''" "[''--version''] \<noteq> []" by simp_all
  from C4_help_version_tokens[OF g0, of noLib] g1 g2
  have r0: "Parse noLib helpParser [''--help=x'', ''--version''] = ExitHelp" by blast
  from C4_help_version_tokens[OF v0, of noLib] v1 v2 v3
  have r1: "Parse noLib helpParser [''-V''] = ExitVersion" by blast
  from C4_help_version_tokens[OF h0, of noLib "''--help=x''"] m0 e0 f0
  have r2: "isErr (Parse noLib bareParser [''--help=x''])" by blast
  from C4_help_version_tokens[OF h1, of noLib] m1 f1
  have r3: "Parse noLib bareParser [''--help''] = Err (UnknownArgument ''--help'')" by blast
  from C4_help_version_tokens[OF h2, of noLib] m2 f2
  have r4: "isErr (Parse noLib bareParser [''-h''])"
    "Parse noLib bareParser [''-h''] = Err (UnknownArgument ''-h'')" by blast+
  from C4_help_version_tokens[OF h3, of noLib] m3 f3
  have r5: "Parse noLib bareParser [''--version''] = Err (UnknownArgument ''--version'')" by blast
  from C4_help_version_tokens[OF h4, of noLib] m4 f4
  have r6: "isErr (Parse noLib bareParser [''-V''])"
    "Parse noLib bareParser [''-V''] = Err (UnknownArgument ''-V'')" by blast+
  from g0 g1 g2 r0 v0 v1 v2 v3 r1 h0 m0 e0 f0 r2 h1 m1 f1 r3 h2 m2 f2 r4 h3 m3 f3 r5 h4 m4 f4 r6
  show ?thesis by (intro conjI)
qed

text \<open>
  C4 as stated fails: on a parser on which \<open>AddHelp\<close> and \<open>AddVersion\<close> were never
  called, each of the four tokens is reported as an unknown argument.
\<close>

theorem C4_unregistered_help_counterexample:
  "args bareParser = []
   \<and> Parse noLib bareParser [''--help''] = Err (UnknownArgument ''--help'')
   \<and> Parse noLib bareParser [''-h''] = Err (UnknownArgument ''-h'')
   \<and> Parse noLib bareParser [''--version''] = Err (UnknownArgument ''--version'')
   \<and> Parse noLib bareParser [''-V''] = Err (UnknownArgument ''-V'')"
  by (intro conjI failure_Some) code_simp+

subsection \<open>C5: the typed getters\<close>

text \<open>
  C5, as the code has it. A getter parses the arguments of the process again. When that
  parse fails, or succeeds with no entry under the name, every getter returns the zero
  value of its type. When it succeeds with an entry \<open>v\<close> under the name, \<open>GetString\<close>
  returns the text of \<open>v\<close> (\<open>v\<close> itself when it is a string, its \<open>%v\<close> rendering
  otherwise), and each other getter returns \<open>v\<close> when it has the getter's type and the zero
  value of that type otherwise. When that parse ends the process (help or version), no
  getter returns. No getter returns an error.
\<close>

theorem C5_getters:
  "((isErr (Parse L p osArgs) \<or> (isOk (Parse L p osArgs) \<and> entry (Parse L p osArgs) n = None)) \<longrightarrow>
      GetString L p osArgs n = Returned []
      \<and> GetInt L p osArgs n = Returned 0
      \<and> GetFloat L p osArgs n = Returned (zeroFloat L)
      \<and> GetBool L p osArgs n = Returned False
      \<and> GetList L p osArgs n = Returned []
      \<and> GetDateTime L p osArgs n = Returned (zeroTime L))
   \<and> (isOk (Parse L p osArgs) \<and> entry (Parse L p osArgs) n = Some v \<longrightarrow>
      GetString L p osArgs n = Returned (sprintv L v)
      \<and> GetInt L p osArgs n = Returned (case v of VInt i \<Rightarrow> i | _ \<Rightarrow> 0)
      \<and> GetFloat L p osArgs n = Returned (case v of VFloat f \<Rightarrow> f | _ \<Rightarrow> zeroFloat L)
      \<and> GetBool L p osArgs n = Returned (case v of VBool b \<Rightarrow> b | _ \<Rightarrow> False)
      \<and> GetList L p osArgs n = Returned (case v of VList xs \<Rightarrow> xs | _ \<Rightarrow> [])
      \<and> GetDateTime L p osArgs n = Returned (case v of VTime t \<Rightarrow> t | _ \<Rightarrow> zeroTime L))
   \<and> (Parse L p osArgs = ExitHelp \<or> Parse L p osArgs = ExitVersion \<longrightarrow>
      GetString L p osArgs n = Exited
      \<and> GetInt L p osArgs n = Exited
      \<and> GetFloat L p osArgs n = Exited
      \<and> GetBool L p osArgs n = Exited
      \<and> GetList L p osArgs n = Exited
      \<and> GetDateTime L p osArgs n = Exited)"
proof (cases "Parse L p osArgs")
  case (Ok r)
  show ?thesis
  proof (cases "r n")
    case None
    with Ok show ?thesis
      by (simp add: isErr_def isOk_def entry_def Get_def GetString_def GetInt_def GetFloat_def
          GetBool_def GetList_def GetDateTime_def)
  next
    case (Some w)
    with Ok show ?thesis
      by (cases w)
         (auto simp: isErr_def isOk_def entry_def Get_def GetString_def GetInt_def GetFloat_def
          GetBool_def GetList_def GetDateTime_def)
  qed
next
  case (Err e)
  then show ?thesis
    by (simp add: isErr_def isOk_def entry_def Get_def GetString_def GetInt_def GetFloat_def
        GetBool_def GetList_def GetDateTime_def)
next
  case ExitHelp
  then show ?thesis
    by (simp add: isErr_def isOk_def entry_def Get_def GetString_def GetInt_def GetFloat_def
        GetBool_def GetList_def GetDateTime_def)
next
  case ExitVersion
  then show ?thesis
    by (simp add: isErr_def isOk_def entry_def Get_def GetString_def GetInt_def GetFloat_def
        GetBool_def GetList_def GetDateTime_def)
qed

theorem C5_getters_witness:
  "(isOk (Parse noLib intParser []) \<and> entry (Parse noLib intParser []) ''integer'' = Some (VInt 42)
      \<and> GetString noLib intParser [] ''integer'' = Returned (sprintv noLib (VInt 42))
      \<and> GetInt noLib intParser [] ''integer'' = Returned 42
      \<and> GetBool noLib intParser [] ''integer'' = Returned False
      \<and> GetList noLib intParser [] ''integer'' = Returned [])
   \<and> (isOk (Parse noLib intParser []) \<and> entry (Parse noLib intParser []) ''other'' = None
      \<and> GetString noLib intParser [] ''other'' = Returned []
      \<and> GetInt noLib intParser [] ''other'' = Returned 0)
   \<and> (isErr (Parse noLib intParser [''-x''])
      \<and> GetString noLib intParser [''-x''] ''integer'' = Returned []
      \<and> GetInt noLib intParser [''-x''] ''integer'' = Returned 0)
   \<and> (Parse noLib helpParser [''-h''] = ExitHelp
      \<and> GetString noLib helpParser [''-h''] ''help'' = Exited
      \<and> GetBool noLib helpParser [''-h''] ''help'' = Exited)"
proof -
  have a1: "isOk (Parse noLib intParser [])" by code_simp
  have a2: "entry (Parse noLib intParser []) ''integer'' = Some (VInt 42)" by code_simp
  have b2: "entry (Parse noLib intParser []) ''other'' = None" by code_simp
  have c1: "isErr (Parse noLib intParser [''-x''])" by code_simp
  have d0: "\<not> delegates helpParser [''-h'']" by code_simp
  have d1: "\<not> isErr (Parse noLib helpParser [''-h''])" by code_simp
  have d2: "Parse noLib helpParser [''-h''] = ExitHelp"
    using own_h[of "[''-h'']" noLib helpParser] d1 Parse_own[OF d0, of noLib]
    by (simp del: Parse.simps)
  show ?thesis
    using a1 a2 b2 c1 d2
      C5_getters[of noLib intParser "[]" "''integer''" "VInt 42"]
      C5_getters[of noLib intParser "[]" "''other''"]
      C5_getters[of noLib intParser "[''-x'']" "''integer''"]
      C5_getters[of noLib helpParser "[''-h'']" "''help''"]
    by (simp del: Parse.simps)
qed

text \<open>
  C5 as stated fails for \<open>GetString\<close>: on a stored integer 42 it returns \<open>42\<close>, not the
  empty string.
\<close>

theorem C5_GetString_counterexample:
  "isOk (Parse noLib intParser [])
   \<and> entry (Parse noLib intParser []) ''integer'' = Some (VInt 42)
   \<and> GetString noLib intParser [] ''integer'' = Returned ''42''
   \<and> GetString noLib intParser [] ''integer'' \<noteq> Returned []"
  by code_simp

subsection \<open>C6: delegation to a subcommand\<close>

text \<open>
  C6, as the code has it. Let the parser have subcommands and the first token \<open>arg\<close> be
  the name of one, \<open>sub\<close>. Then \<open>Parse\<close> is decided by the parse of \<open>sub\<close> on the
  remaining tokens: when that does not return a result (an error, or an exit), the outer
  call does the same; when it returns a result, the outer call returns one too, and its
  entry under a key is the child's entry when the child has one, and otherwise the name
  \<open>arg\<close> under the key \<open>subcommand\<close> and the outer parser's default under any other key.
  So the outer result depends on the outer parser through its defaults only: no token is
  matched against its definitions and none of its required checks is made.
\<close>

theorem C6_delegation:
  assumes "subparsers p \<noteq> []" and "map_of (subparsers p) arg = Some sub"
  shows "(\<not> isOk (Parse L sub rest) \<longrightarrow> Parse L p (arg # rest) = Parse L sub rest)
       \<and> (isOk (Parse L sub rest) \<longrightarrow>
            isOk (Parse L p (arg # rest))
            \<and> (\<forall>k. entry (Parse L p (arg # rest)) k =
                    (case entry (Parse L sub rest) k of
                       Some v \<Rightarrow> Some v
                     | None \<Rightarrow> if k = ''subcommand'' then Some (VString arg) else seed p k)))"
  using assms
  by (cases "Parse L sub rest") (auto simp: isOk_def entry_def map_add_def split: option.splits)

text \<open>
  The task manager: \<open>add -t X\<close> succeeds with \<open>subcommand = add\<close> and \<open>title = X\<close>
  although the required option \<open>--user\<close> of the root is not given; \<open>add\<close> alone fails with
  the child's error.
\<close>

theorem C6_delegation_witness:
  "subparsers taskParser \<noteq> []
   \<and> map_of (subparsers taskParser) ''add'' = Some (the (map_of (subparsers taskParser) ''add''))
   \<and> isOk (Parse noLib (the (map_of (subparsers taskParser) ''add'')) [''-t'', ''X''])
   \<and> isOk (Parse noLib taskParser [''add'', ''-t'', ''X''])
   \<and> entry (Parse noLib taskParser [''add'', ''-t'', ''X'']) ''subcommand'' = Some (VString ''add'')
   \<and> entry (Parse noLib taskParser [''add'', ''-t'', ''X'']) ''title'' = Some (VString ''X'')
   \<and> \<not> isOk (Parse noLib (the (map_of (subparsers taskParser) ''add'')) [])
   \<and> Parse noLib taskParser [''add''] = Parse noLib (the (map_of (subparsers taskParser) ''add'')) []"
proof -
  let ?sub = "the (map_of (subparsers taskParser) ''add'')"
  have h1: "subparsers taskParser \<noteq> []" by code_simp
  have h2: "map_of (subparsers taskParser) ''add'' = Some ?sub" by code_simp
  have ok: "isOk (Parse noLib ?sub [''-t'', ''X''])" by code_simp
  have no: "\<not> isOk (Parse noLib ?sub [])" by code_simp
  have e1: "entry (Parse noLib ?sub [''-t'', ''X'']) ''subcommand'' = None" by code_simp
  have e2: "entry (Parse noLib ?sub [''-t'', ''X'']) ''title'' = Some (VString ''X'')" by code_simp
  note t1 = C6_delegation[OF h1 h2, of noLib "[''-t'', ''X'']"]
  note t2 = C6_delegation[OF h1 h2, of noLib "[]"]
  from t1 ok have k: "isOk (Parse noLib taskParser [''add'', ''-t'', ''X''])"
    and all: "\<And>k. entry (Parse noLib taskParser [''add'', ''-t'', ''X'']) k =
                (case entry (Parse noLib ?sub [''-t'', ''X'']) k of
                   Some v \<Rightarrow> Some v
                 | None \<Rightarrow> if k = ''subcommand'' then Some (VString ''add'') else seed taskParser k)"
    by blast+
  from t2 no have f: "Parse noLib taskParser [''add''] = Parse noLib ?sub []" by blast
  show ?thesis
    using h1 h2 ok no k f all[of "''subcommand''"] all[of "''title''"] e1 e2
    by (simp del: Parse.simps)
qed

text \<open>
  C6 as stated fails where the child's result has an entry \<open>subcommand\<close> of its own: for
  a subcommand \<open>a\<close> with a subcommand \<open>b\<close>, the input \<open>a b\<close> gives \<open>subcommand = b\<close>, which is
  not the name of the child of the outer parser.
\<close>

theorem C6_subcommand_entry_counterexample:
  "isOk (Parse noLib nestedParser [''a'', ''b''])
   \<and> entry (Parse noLib nestedParser [''a'', ''b'']) ''subcommand'' = Some (VString ''b'')
   \<and> entry (Parse noLib nestedParser [''a'', ''b'']) ''subcommand'' \<noteq> Some (VString ''a'')"
  by code_simp

subsection \<open>C7: defaults and required definitions\<close>




subsection \<open>C8: list coercion\<close>

text \<open>
  C8. Coercing the token \<open>a,b,c\<close> at list type gives the sequence \<open>a\<close>, \<open>b\<close>, \<open>c\<close>;
  coercing the empty token gives the one-element sequence holding the empty string; and
  list coercion never fails: for every token it returns a list value.
\<close>

theorem C8_list_coercion:
  "parseValue L ListType ''a,b,c'' = Inr (VList [''a'', ''b'', ''c''])
   \<and> parseValue L ListType [] = Inr (VList [[]])
   \<and> (\<exists>xs. parseValue L ListType v = Inr (VList xs))"
  by simp

subsection \<open>C9: the default of a boolean flag\<close>

text \<open>
  C9, as the code has it.
  \<^item> \<open>Bool\<close> appends one optional definition; it has the given name, the boolean type and
    the default \<open>false\<close>, whatever default the options object carried.
  \<^item> The definition keeps its place and its fields under every later registration
    (\<open>Flag\<close>, \<open>String\<close>, \<open>Int\<close>, \<open>Bool\<close>, \<open>Counter\<close>, \<open>AddHelp\<close>, \<open>AddVersion\<close>,
    \<open>Positional\<close>, \<open>NewCommand\<close> and what is registered on a subcommand), and a setter
    called on the definition registered last leaves the earlier ones as they are.
    \<open>Required\<close> and \<open>Choices\<close> keep the default of the definition they are called on;
    \<open>Default\<close> replaces it: after \<open>Bool(...).Default(true)\<close> the stored default is
    \<open>true\<close>.
  \<^item> For every optional definition whose stored default is \<open>false\<close>, in a parser whose
    definitions have pairwise distinct names: a successful \<open>Parse\<close> that handles the
    input itself has \<open>false\<close> under the definition's name when no token of the input
    addresses the definition; a successful \<open>Parse\<close> that hands the input to a subcommand
    has \<open>false\<close> under that name provided the name is not \<open>subcommand\<close> and the child's
    result has no entry under it.
\<close>

theorem C9_bool_default:
  "(length (args (BoolArg s l options p)) = Suc (length (args p))
      \<and> DefaultVal (args (BoolArg s l options p) ! length (args p)) = Some (VBool False)
      \<and> Name (args (BoolArg s l options p) ! length (args p)) = l
      \<and> ArgType (args (BoolArg s l options p) ! length (args p)) = BoolType)
   \<and> (j < length (args q) \<longrightarrow>
        args (Flag s' l' options' q) ! j = args q ! j
        \<and> args (StringArg s' l' options' q) ! j = args q ! j
        \<and> args (IntArg s' l' options' q) ! j = args q ! j
        \<and> args (BoolArg s' l' options' q) ! j = args q ! j
        \<and> args (CounterArg s' l' options' q) ! j = args q ! j
        \<and> args (AddHelp q) ! j = args q ! j
        \<and> args (AddVersion q) ! j = args q ! j)
   \<and> (args (Positional n options' q) = args q
        \<and> args (NewCommand n descr q) = args q
        \<and> args (onCommand n g q) = args q)
   \<and> (Suc j < length (args q) \<longrightarrow> args (onLast f q) ! j = args q ! j)
   \<and> (args q \<noteq> [] \<longrightarrow> last (args (onLast f q)) = f (last (args q)))
   \<and> (DefaultVal (Required x) = DefaultVal x
        \<and> DefaultVal (Choices cs x) = DefaultVal x
        \<and> DefaultVal (Default v x) = Some v)
   \<and> (\<not> delegates q ts \<and> distinct (map Name (args q @ positional q))
        \<and> j < length (args q) \<and> DefaultVal (args q ! j) = Some (VBool False)
        \<and> isOk (Parse L q ts) \<and> \<not> list_ex (addresses (args q ! j)) ts \<longrightarrow>
          entry (Parse L q ts) (Name (args q ! j)) = Some (VBool False))
   \<and> (subparsers q \<noteq> [] \<and> map_of (subparsers q) arg = Some sub
        \<and> distinct (map Name (args q @ positional q))
        \<and> j < length (args q) \<and> DefaultVal (args q ! j) = Some (VBool False)
        \<and> isOk (Parse L q (arg # rest))
        \<and> Name (args q ! j) \<noteq> ''subcommand''
        \<and> entry (Parse L sub rest) (Name (args q ! j)) = None \<longrightarrow>
          entry (Parse L q (arg # rest)) (Name (args q ! j)) = Some (VBool False))"
proof -
  have r: "length (args (BoolArg s l options p)) = Suc (length (args p))
      \<and> DefaultVal (args (BoolArg s l options p) ! length (args p)) = Some (VBool False)
      \<and> Name (args (BoolArg s l options p) ! length (args p)) = l
      \<and> ArgType (args (BoolArg s l options p) ! length (args p)) = BoolType"
    by (simp add: args_BoolArg)
  have k: "j < length (args q) \<longrightarrow>
        args (Flag s' l' options' q) ! j = args q ! j
        \<and> args (StringArg s' l' options' q) ! j = args q ! j
        \<and> args (IntArg s' l' options' q) ! j = args q ! j
        \<and> args (BoolArg s' l' options' q) ! j = args q ! j
        \<and> args (CounterArg s' l' options' q) ! j = args q ! j
        \<and> args (AddHelp q) ! j = args q ! j
        \<and> args (AddVersion q) ! j = args q ! j"
    by (simp add: args_Flag_nth args_registered_nth)
  have u: "args (Positional n options' q) = args q
        \<and> args (NewCommand n descr q) = args q
        \<and> args (onCommand n g q) = args q"
    by (simp add: args_unregistered)
  have o1: "Suc j < length (args q) \<longrightarrow> args (onLast f q) ! j = args q ! j"
    by (simp add: args_onLast_nth)
  have o2: "args q \<noteq> [] \<longrightarrow> last (args (onLast f q)) = f (last (args q))"
    by (simp add: args_onLast_last)
  have e: "DefaultVal (Required x) = DefaultVal x
        \<and> DefaultVal (Choices cs x) = DefaultVal x
        \<and> DefaultVal (Default v x) = Some v"
    by (simp add: Required_def Choices_def Default_def)
  have c: "\<not> delegates q ts \<and> distinct (map Name (args q @ positional q))
        \<and> j < length (args q) \<and> DefaultVal (args q ! j) = Some (VBool False)
        \<and> isOk (Parse L q ts) \<and> \<not> list_ex (addresses (args q ! j)) ts \<longrightarrow>
          entry (Parse L q ts) (Name (args q ! j)) = Some (VBool False)"
  proof (intro impI, elim conjE)
    assume h: "\<not> delegates q ts" "distinct (map Name (args q @ positional q))"
      "j < length (args q)" "DefaultVal (args q ! j) = Some (VBool False)"
      "isOk (Parse L q ts)" "\<not> list_ex (addresses (args q ! j)) ts"
    from h(3) have n: "(args q @ positional q) ! j = args q ! j" by (simp add: nth_append)
    from h(3,6) have ns: "notSupplied q ts j" by (simp add: notSupplied_def)
    from own_default_tokens[of q L ts j "VBool False"] h n ns
    show "entry (Parse L q ts) (Name (args q ! j)) = Some (VBool False)"
      by (simp add: Parse_own)
  qed
  have d: "subparsers q \<noteq> [] \<and> map_of (subparsers q) arg = Some sub
        \<and> distinct (map Name (args q @ positional q))
        \<and> j < length (args q) \<and> DefaultVal (args q ! j) = Some (VBool False)
        \<and> isOk (Parse L q (arg # rest))
        \<and> Name (args q ! j) \<noteq> ''subcommand''
        \<and> entry (Parse L sub rest) (Name (args q ! j)) = None \<longrightarrow>
          entry (Parse L q (arg # rest)) (Name (args q ! j)) = Some (VBool False)"
  proof (intro impI, elim conjE)
    assume s: "subparsers q \<noteq> []" "map_of (subparsers q) arg = Some sub"
      and di: "distinct (map Name (args q @ positional q))"
      and j: "j < length (args q)" and dv: "DefaultVal (args q ! j) = Some (VBool False)"
      and ok: "isOk (Parse L q (arg # rest))"
      and nk: "Name (args q ! j) \<noteq> ''subcommand''"
        "entry (Parse L sub rest) (Name (args q ! j)) = None"
    from j have "args q ! j \<in> set (args q @ positional q)" by simp
    from delegated_entry[OF s ok nk] seed_default[OF di this dv]
    show "entry (Parse L q (arg # rest)) (Name (args q ! j)) = Some (VBool False)" by simp
  qed
  show ?thesis
    by (rule conjI[OF r conjI[OF k conjI[OF u conjI[OF o1 conjI[OF o2 conjI[OF e conjI[OF c d]]]]]]])
qed

text \<open>
  The theorem at work, on a parser in which the flag \<open>-v/--verbose\<close> is registered
  first, with the default \<open>true\<close> in its options object, before the option \<open>-o/--output\<close>
  and the subcommand \<open>run\<close>: the flag is still the first definition after the option is
  registered, and both the input \<open>-o f\<close> and the input \<open>run\<close> give \<open>false\<close> under
  \<open>verbose\<close>.
\<close>

theorem C9_bool_default_witness:
  "(0 < length (args verboseParser)
      \<and> args (StringArg ''o'' ''output'' None verboseParser) ! 0 = args verboseParser ! 0)
   \<and> (Suc 0 < length (args flagFirstParser)
      \<and> args (onLast Required flagFirstParser) ! 0 = args flagFirstParser ! 0)
   \<and> (args flagFirstParser \<noteq> []
      \<and> last (args (onLast Required flagFirstParser)) = Required (last (args flagFirstParser)))
   \<and> (\<not> delegates flagFirstParser [''-o'', ''f'']
      \<and> distinct (map Name (args flagFirstParser @ positional flagFirstParser))
      \<and> 0 < length (args flagFirstParser)
      \<and> DefaultVal (args flagFirstParser ! 0) = Some (VBool False)
      \<and> isOk (Parse noLib flagFirstParser [''-o'', ''f''])
      \<and> \<not> list_ex (addresses (args flagFirstParser ! 0)) [''-o'', ''f'']
      \<and> entry (Parse noLib flagFirstParser [''-o'', ''f'']) (Name (args flagFirstParser ! 0))
          = Some (VBool False))
   \<and> (subparsers flagFirstParser \<noteq> []
      \<and> map_of (subparsers flagFirstParser) ''run''
          = Some (the (map_of (subparsers flagFirstParser) ''run''))
      \<and> isOk (Parse noLib flagFirstParser [''run''])
      \<and> Name (args flagFirstParser ! 0) \<noteq> ''subcommand''
      \<and> entry (Parse noLib (the (map_of (subparsers flagFirstParser) ''run'')) [])
            (Name (args flagFirstParser ! 0)) = None
      \<and> entry (Parse noLib flagFirstParser [''run'']) (Name (args flagFirstParser ! 0))
          = Some (VBool False))"
proof -
  let ?sub = "the (map_of (subparsers flagFirstParser) ''run'')"
  have p1: "0 < length (args verboseParser)" by code_simp
  have p2: "Suc 0 < length (args flagFirstParser)" by code_simp
  have p3: "args flagFirstParser \<noteq> []" by code_simp
  have a1: "\<not> delegates flagFirstParser [''-o'', ''f'']" by code_simp
  have a2: "distinct (map Name (args flagFirstParser @ positional flagFirstParser))" by code_simp
  have a3: "0 < length (args flagFirstParser)" by code_simp
  have a4: "DefaultVal (args flagFirstParser ! 0) = Some (VBool False)" by code_simp
  have a5: "isOk (Parse noLib flagFirstParser [''-o'', ''f''])" by code_simp
  have a6: "\<not> list_ex (addresses (args flagFirstParser ! 0)) [''-o'', ''f'']" by code_simp
  have b1: "subparsers flagFirstParser \<noteq> []" by code_simp
  have b2: "map_of (subparsers flagFirstParser) ''run'' = Some ?sub" by code_simp
  have b3: "isOk (Parse noLib flagFirstParser [''run''])" by code_simp
  have b4: "Name (args flagFirstParser ! 0) \<noteq> ''subcommand''" by code_simp
  have b5: "entry (Parse noLib ?sub []) (Name (args flagFirstParser ! 0)) = None" by code_simp
  note t0 = C9_bool_default[where q = verboseParser and j = 0 and s' = "''o''"
      and l' = "''output''" and options' = None]
  note t1 = C9_bool_default[where q = flagFirstParser and j = 0 and f = Required]
  note t2 = C9_bool_default[where q = flagFirstParser and j = 0 and L = noLib
      and ts = "[''-o'', ''f'']"]
  note t3 = C9_bool_default[where q = flagFirstParser and j = 0 and L = noLib
      and arg = "''run''" and sub = ?sub and rest = "[]"]
  from t0 p1
  have r0: "args (StringArg ''o'' ''output'' None verboseParser) ! 0 = args verboseParser ! 0"
    by blast
  from t1 p2 have r1: "args (onLast Required flagFirstParser) ! 0 = args flagFirstParser ! 0"
    by blast
  from t1 p3 have r1': "last (args (onLast Required flagFirstParser))
      = Required (last (args flagFirstParser))"
    by blast
  from t2 a1 a2 a3 a4 a5 a6
  have r2: "entry (Parse noLib flagFirstParser [''-o'', ''f'']) (Name (args flagFirstParser ! 0))
          = Some (VBool False)"
    by blast
  from t3 b1 b2 a2 a3 a4 b3 b4 b5
  have r3: "entry (Parse noLib flagFirstParser [''run'']) (Name (args flagFirstParser ! 0))
          = Some (VBool False)"
    by blast
  from p1 r0 p2 r1 p3 r1' a1 a2 a3 a4 a5 a6 r2 b1 b2 b3 b4 b5 r3 show ?thesis
    by (intro conjI)
qed

text \<open>
  C9 as stated fails.
  \<^item> Under delegation: the flag \<open>--verbose\<close> of the root is registered with \<open>Bool\<close> and
    not supplied, the subcommand \<open>run\<close> has a text option of the same name with the
    default \<open>loud\<close>, and the result of \<open>run\<close> has \<open>loud\<close> under \<open>verbose\<close>.
  \<^item> After \<open>Bool("v", "verbose", nil).Default(true)\<close> the stored default is \<open>true\<close>, and
    the empty input gives \<open>true\<close> under \<open>verbose\<close>.
  \<^item> With a positional argument of the same name: no token of the input \<open>yes\<close>
    addresses the flag, and the result has the text \<open>yes\<close> under \<open>verbose\<close>.
\<close>

theorem C9_shadowed_flag_counterexample:
  "DefaultVal (last (args verboseRunParser)) = Some (VBool False)
   \<and> Name (last (args verboseRunParser)) = ''verbose''
   \<and> isOk (Parse noLib verboseRunParser [''run''])
   \<and> entry (Parse noLib verboseRunParser [''run'']) ''verbose'' = Some (VString ''loud'')
   \<and> entry (Parse noLib verboseRunParser [''run'']) ''verbose'' \<noteq> Some (VBool False)
   \<and> DefaultVal (last (args eagerParser)) = Some (VBool True)
   \<and> isOk (Parse noLib eagerParser [])
   \<and> entry (Parse noLib eagerParser []) ''verbose'' = Some (VBool True)
   \<and> DefaultVal (hd (args verboseClashParser)) = Some (VBool False)
   \<and> Name (hd (args verboseClashParser)) = ''verbose''
   \<and> \<not> list_ex (addresses (hd (args verboseClashParser))) [''yes'']
   \<and> isOk (Parse noLib verboseClashParser [''yes''])
   \<and> entry (Parse noLib verboseClashParser [''yes'']) ''verbose'' = Some (VString ''yes'')"
  by code_simp

subsection \<open>C10: the single dash\<close>

text \<open>
  C10, as the code has it. An iteration of the main loop on the token \<open>-\<close> changes
  nothing: no error, no value, no mark, no positional slot, no look-ahead. The walk over an
  input is the walk over the input without the token whenever the tokens before it are
  walked without an error on their own; the same holds for \<open>Parse\<close> when that prefix is
  not empty and does not start with a subcommand. A leading \<open>-\<close> that is not the name of
  a subcommand leaves the parser's own walk over the rest (the first of the remaining
  tokens is then no longer tried as a subcommand).

  The token before \<open>-\<close> does see it. The look-ahead for a value takes \<open>-\<close> for an option
  and gives \<open>requires a value\<close>; an iteration on any token followed by \<open>-\<close> is the
  iteration on that token at the end of the input; and the walk over an input with \<open>-\<close>
  is the walk over the tokens before it as an input of their own and then, if that ends
  without an error, the walk over the tokens after it. So when \<open>Parse\<close> handles the input
  itself and the tokens before are walked without an error, a token \<open>--name\<close> without
  \<open>=\<close>, or a token \<open>-c\<close> of one ASCII character, whose definition is neither boolean nor
  a counter, fails directly before \<open>-\<close> with \<open>requires a value\<close>.
\<close>

theorem C10_single_dash:
  "step L ''-'' rest st = Inr (st, 0)
   \<and> walk L (''-'' # rest) st = walk L rest st
   \<and> (\<not> isl (walk L pre st) \<longrightarrow> walk L (pre @ ''-'' # post) st = walk L (pre @ post) st)
   \<and> (pre \<noteq> [] \<and> \<not> delegates p pre \<and> \<not> isl (walk L pre (initState p)) \<longrightarrow>
        Parse L p (pre @ ''-'' # post) = Parse L p (pre @ post))
   \<and> (map_of (subparsers p) ''-'' = None \<longrightarrow> Parse L p (''-'' # rest) = parseOwn L p rest)
   \<and> takeNext L P option shown (''-'' # rest) st = Inl (RequiresValue shown)
   \<and> step L arg (''-'' # rest) st = step L arg [] st
   \<and> walk L (pre @ ''-'' # post) st =
       (case walk L pre st of Inl e \<Rightarrow> Inl e | Inr st1 \<Rightarrow> walk L post st1)
   \<and> (\<not> delegates p (pre @ (''--'' @ n) # ''-'' # post) \<and> \<not> isl (walk L pre (initState p))
        \<and> find (\<lambda>a. Name a = n) (args p) = Some a
        \<and> ArgType a \<noteq> BoolType \<and> ArgType a \<noteq> CounterType \<and> CHR ''='' \<notin> set n \<longrightarrow>
          Parse L p (pre @ (''--'' @ n) # ''-'' # post) = Err (RequiresValue (''--'' @ n)))
   \<and> (\<not> delegates p (pre @ [CHR ''-'', c] # ''-'' # post) \<and> \<not> isl (walk L pre (initState p))
        \<and> find (\<lambda>a. ShortName a = [c]) (args p) = Some a
        \<and> ArgType a \<noteq> BoolType \<and> ArgType a \<noteq> CounterType
        \<and> (of_char c :: nat) < 128 \<and> c \<noteq> CHR ''-'' \<longrightarrow>
          Parse L p (pre @ [CHR ''-'', c] # ''-'' # post) = Err (RequiresValue [CHR ''-'', c]))"
proof -
  have c: "pre \<noteq> [] \<and> \<not> delegates p pre \<and> \<not> isl (walk L pre (initState p)) \<longrightarrow>
        Parse L p (pre @ ''-'' # post) = Parse L p (pre @ post)"
  proof (intro impI, elim conjE)
    assume ne: "pre \<noteq> []" and nd: "\<not> delegates p pre" and ok: "\<not> isl (walk L pre (initState p))"
    have "Parse L p (pre @ ''-'' # post) = parseOwn L p (pre @ ''-'' # post)"
      by (rule Parse_own) (simp add: delegates_append[OF ne] nd)
    moreover have "Parse L p (pre @ post) = parseOwn L p (pre @ post)"
      by (rule Parse_own) (simp add: delegates_append[OF ne] nd)
    ultimately show "Parse L p (pre @ ''-'' # post) = Parse L p (pre @ post)"
      by (simp add: parseOwn_def walk_skip_dash[OF ok])
  qed
  have d: "map_of (subparsers p) ''-'' = None \<longrightarrow> Parse L p (''-'' # rest) = parseOwn L p rest"
    by (simp add: parseOwn_def walk_dash del: walk.simps)
  have s: "\<not> isl (walk L pre st) \<longrightarrow> walk L (pre @ ''-'' # post) st = walk L (pre @ post) st"
    using walk_skip_dash by blast
  have t: "takeNext L P option shown (''-'' # rest) st = Inl (RequiresValue shown)"
    by (rule takeNext_dash)
  have n: "step L arg (''-'' # rest) st = step L arg [] st"
    by (rule step_dash_next)
  have b: "walk L (pre @ ''-'' # post) st =
       (case walk L pre st of Inl e \<Rightarrow> Inl e | Inr st1 \<Rightarrow> walk L post st1)"
    by (rule walk_barrier)
  have l: "\<not> delegates p (pre @ (''--'' @ n) # ''-'' # post) \<and> \<not> isl (walk L pre (initState p))
        \<and> find (\<lambda>a. Name a = n) (args p) = Some a
        \<and> ArgType a \<noteq> BoolType \<and> ArgType a \<noteq> CounterType \<and> CHR ''='' \<notin> set n \<longrightarrow>
          Parse L p (pre @ (''--'' @ n) # ''-'' # post) = Err (RequiresValue (''--'' @ n))"
  proof (intro impI, elim conjE)
    assume nd: "\<not> delegates p (pre @ (''--'' @ n) # ''-'' # post)"
      and g: "\<not> isl (walk L pre (initState p))" "find (\<lambda>a. Name a = n) (args p) = Some a"
        "ArgType a \<noteq> BoolType" "ArgType a \<noteq> CounterType" "CHR ''='' \<notin> set n"
    from own_long_waits[OF g, of post] Parse_own[OF nd, of L]
    show "Parse L p (pre @ (''--'' @ n) # ''-'' # post) = Err (RequiresValue (''--'' @ n))"
      by simp
  qed
  have h: "\<not> delegates p (pre @ [CHR ''-'', c] # ''-'' # post) \<and> \<not> isl (walk L pre (initState p))
        \<and> find (\<lambda>a. ShortName a = [c]) (args p) = Some a
        \<and> ArgType a \<noteq> BoolType \<and> ArgType a \<noteq> CounterType
        \<and> (of_char c :: nat) < 128 \<and> c \<noteq> CHR ''-'' \<longrightarrow>
          Parse L p (pre @ [CHR ''-'', c] # ''-'' # post) = Err (RequiresValue [CHR ''-'', c])"
  proof (intro impI, elim conjE)
    assume nd: "\<not> delegates p (pre @ [CHR ''-'', c] # ''-'' # post)"
      and g: "\<not> isl (walk L pre (initState p))" "find (\<lambda>a. ShortName a = [c]) (args p) = Some a"
        "ArgType a \<noteq> BoolType" "ArgType a \<noteq> CounterType"
        "(of_char c :: nat) < 128" "c \<noteq> CHR ''-''"
    from own_short_waits[OF g, of post] Parse_own[OF nd, of L]
    show "Parse L p (pre @ [CHR ''-'', c] # ''-'' # post) = Err (RequiresValue [CHR ''-'', c])"
      by simp
  qed
  from step_dash[of L rest st] walk_dash[of L rest st] s c d t n b l h show ?thesis
    by (intro conjI)
qed

text \<open>
  The theorem at work, on the parser with the flags \<open>-a\<close>, \<open>-b\<close> and the text option
  \<open>-c/--gamma\<close>: \<open>-a - -b\<close> is parsed as \<open>-a -b\<close>, and \<open>-a --gamma - -b\<close> and \<open>-a -c - -b\<close>
  fail, the option requiring a value.
\<close>

theorem C10_single_dash_witness:
  "(\<not> isl (walk noLib [''-a''] (initState abcParser))
      \<and> walk noLib ([''-a''] @ ''-'' # [''-b'']) (initState abcParser)
          = walk noLib ([''-a''] @ [''-b'']) (initState abcParser))
   \<and> ([''-a''] \<noteq> [] \<and> \<not> delegates abcParser [''-a'']
      \<and> Parse noLib abcParser ([''-a''] @ ''-'' # [''-b''])
          = Parse noLib abcParser ([''-a''] @ [''-b'']))
   \<and> (map_of (subparsers abcParser) ''-'' = None
      \<and> Parse noLib abcParser (''-'' # [''-b'']) = parseOwn noLib abcParser [''-b''])
   \<and> (\<not> delegates abcParser ([''-a''] @ (''--'' @ ''gamma'') # ''-'' # [''-b''])
      \<and> find (\<lambda>a. Name a = ''gamma'') (args abcParser) = Some (args abcParser ! 2)
      \<and> ArgType (args abcParser ! 2) \<noteq> BoolType \<and> ArgType (args abcParser ! 2) \<noteq> CounterType
      \<and> CHR ''='' \<notin> set ''gamma''
      \<and> Parse noLib abcParser ([''-a''] @ (''--'' @ ''gamma'') # ''-'' # [''-b''])
          = Err (RequiresValue (''--'' @ ''gamma'')))
   \<and> (\<not> delegates abcParser ([''-a''] @ [CHR ''-'', CHR ''c''] # ''-'' # [''-b''])
      \<and> find (\<lambda>a. ShortName a = [CHR ''c'']) (args abcParser) = Some (args abcParser ! 2)
      \<and> (of_char (CHR ''c'') :: nat) < 128 \<and> CHR ''c'' \<noteq> CHR ''-''
      \<and> Parse noLib abcParser ([''-a''] @ [CHR ''-'', CHR ''c''] # ''-'' # [''-b''])
          = Err (RequiresValue [CHR ''-'', CHR ''c'']))"
proof -
  have h1: "\<not> isl (walk noLib [''-a''] (initState abcParser))" by code_simp
  have h2: "\<not> delegates abcParser [''-a'']" by code_simp
  have h3: "map_of (subparsers abcParser) ''-'' = None" by code_simp
  have h4: "[''-a''] \<noteq> ([] :: string list)" by simp
  have l1: "\<not> delegates abcParser ([''-a''] @ (''--'' @ ''gamma'') # ''-'' # [''-b''])"
    by code_simp
  have l2: "find (\<lambda>a. Name a = ''gamma'') (args abcParser) = Some (args abcParser ! 2)"
    by code_simp
  have l3: "ArgType (args abcParser ! 2) \<noteq> BoolType" "ArgType (args abcParser ! 2) \<noteq> CounterType"
    by code_simp+
  have l4: "CHR ''='' \<notin> set ''gamma''" by simp
  have s1: "\<not> delegates abcParser ([''-a''] @ [CHR ''-'', CHR ''c''] # ''-'' # [''-b''])"
    by code_simp
  have s2: "find (\<lambda>a. ShortName a = [CHR ''c'']) (args abcParser) = Some (args abcParser ! 2)"
    by code_simp
  have s3: "(of_char (CHR ''c'') :: nat) < 128" "CHR ''c'' \<noteq> CHR ''-''" by simp_all
  note t = C10_single_dash[where L = noLib and p = abcParser and pre = "[''-a'']"
      and post = "[''-b'']" and rest = "[''-b'']" and st = "initState abcParser"
      and n = "''gamma''" and c = "CHR ''c''" and a = "args abcParser ! 2"]
  from t h1 have r1: "walk noLib ([''-a''] @ ''-'' # [''-b'']) (initState abcParser)
          = walk noLib ([''-a''] @ [''-b'']) (initState abcParser)"
    by blast
  from t h1 h2 h4 have r2: "Parse noLib abcParser ([''-a''] @ ''-'' # [''-b''])
          = Parse noLib abcParser ([''-a''] @ [''-b''])"
    by blast
  from t h3 have r3: "Parse noLib abcParser (''-'' # [''-b'']) = parseOwn noLib abcParser [''-b'']"
    by blast
  from t h1 l1 l2 l3 l4
  have r4: "Parse noLib abcParser ([''-a''] @ (''--'' @ ''gamma'') # ''-'' # [''-b''])
          = Err (RequiresValue (''--'' @ ''gamma''))"
    by blast
  from t h1 s1 s2 l3 s3
  have r5: "Parse noLib abcParser ([''-a''] @ [CHR ''-'', CHR ''c''] # ''-'' # [''-b''])
          = Err (RequiresValue [CHR ''-'', CHR ''c''])"
    by blast
  from h1 r1 h4 h2 r2 h3 r3 l1 l2 l3 l4 r4 s1 s2 s3 r5 show ?thesis by (intro conjI)
qed

text \<open>
  C10 as stated fails where the token before \<open>-\<close> looks ahead for its value: \<open>-c - value\<close>
  fails, the option \<open>-c\<close> requiring a value, while \<open>-c value\<close> succeeds.
\<close>

theorem C10_look_ahead_counterexample:
  "Parse noLib abcParser [''-c'', ''-'', ''value''] = Err (RequiresValue ''-c'')
   \<and> isOk (Parse noLib abcParser [''-c'', ''value''])
   \<and> entry (Parse noLib abcParser [''-c'', ''value'']) ''gamma'' = Some (VString ''value'')"
proof (intro conjI)
  show "Parse noLib abcParser [''-c'', ''-'', ''value''] = Err (RequiresValue ''-c'')"
    by (rule failure_Some) code_simp
  show "isOk (Parse noLib abcParser [''-c'', ''value''])" by code_simp
  show "entry (Parse noLib abcParser [''-c'', ''value'']) ''gamma'' = Some (VString ''value'')"
    by code_simp
qed

end
